theory Spec2Isabelle
  imports Complex_Main
begin

section \<open>Strings: the Python string operations the converters use\<close>

text \<open>
  Strings are ASCII \<^typ>\<open>string\<close>s. \<open>strip\<close> is \<^verbatim>\<open>str.strip()\<close>, \<open>lower\<close> is
  \<^verbatim>\<open>str.lower()\<close>, \<open>endswith\<close> is \<^verbatim>\<open>str.endswith\<close>.
\<close>

definition is_digit :: "char \<Rightarrow> bool" where
  "is_digit c = (c \<in> set ''0123456789'')"

definition is_space :: "char \<Rightarrow> bool" where
  "is_space c = (let n = (of_char c :: nat) in (9 \<le> n \<and> n \<le> 13) \<or> (28 \<le> n \<and> n \<le> 32))"

definition strip :: "string \<Rightarrow> string" where
  "strip s = rev (dropWhile is_space (rev (dropWhile is_space s)))"

definition lower_char :: "char \<Rightarrow> char" where
  "lower_char c =
     (case map_of (zip ''ABCDEFGHIJKLMNOPQRSTUVWXYZ'' ''abcdefghijklmnopqrstuvwxyz'') c of
        Some l \<Rightarrow> l
      | None \<Rightarrow> c)"

definition lower :: "string \<Rightarrow> string" where
  "lower s = map lower_char s"

definition endswith :: "string \<Rightarrow> string \<Rightarrow> bool" where
  "endswith s suf = (length suf \<le> length s \<and> drop (length s - length suf) s = suf)"

definition digit_val :: "char \<Rightarrow> nat" where
  "digit_val c = of_char c - 48"

text \<open>\<^verbatim>\<open>int(s)\<close> on a string of decimal digits.\<close>

definition nat_of_digits :: "string \<Rightarrow> nat" where
  "nat_of_digits ds = foldl (\<lambda>a c. 10 * a + digit_val c) 0 ds"

text \<open>\<^verbatim>\<open>str(n)\<close> for an integer, used by the f-string of the exit code.\<close>

fun str_nat :: "nat \<Rightarrow> string" where
  "str_nat n =
     (if n < 10 then [''0123456789'' ! n] else str_nat (n div 10) @ [''0123456789'' ! (n mod 10)])"

definition str_int :: "int \<Rightarrow> string" where
  "str_int i = (if i < 0 then CHR ''-'' # str_nat (nat (- i)) else str_nat (nat i))"

section \<open>The progress marker\<close>

text \<open>
  \<^verbatim>\<open>time_re = re.compile(r"time=(\d+:\d+:\d+\.\d+)")\<close>; \<^verbatim>\<open>time_re.search(s)\<close> returns the
  leftmost match. Each \<^verbatim>\<open>\d+\<close> is followed by a character that is not a digit, so the
  greedy match is the only candidate at a position: \<open>expect_digits\<close> takes the longest run
  of digits. \<open>time_re_search\<close> returns \<^verbatim>\<open>m.group(1)\<close>.
\<close>

definition expect_digits :: "string \<Rightarrow> (string \<times> string) option" where
  "expect_digits s =
     (let d = takeWhile is_digit s in if d = [] then None else Some (d, dropWhile is_digit s))"

definition expect_char :: "char \<Rightarrow> string \<Rightarrow> string option" where
  "expect_char c s = (case s of [] \<Rightarrow> None | x # r \<Rightarrow> if x = c then Some r else None)"

definition match_hms :: "string \<Rightarrow> string option" where
  "match_hms s =
     (case expect_digits s of None \<Rightarrow> None | Some (h, r1) \<Rightarrow>
      case expect_char CHR '':'' r1 of None \<Rightarrow> None | Some r2 \<Rightarrow>
      case expect_digits r2 of None \<Rightarrow> None | Some (m, r3) \<Rightarrow>
      case expect_char CHR '':'' r3 of None \<Rightarrow> None | Some r4 \<Rightarrow>
      case expect_digits r4 of None \<Rightarrow> None | Some (sec, r5) \<Rightarrow>
      case expect_char CHR ''.'' r5 of None \<Rightarrow> None | Some r6 \<Rightarrow>
      case expect_digits r6 of None \<Rightarrow> None | Some (fr, r7) \<Rightarrow>
        Some (h @ '':'' @ m @ '':'' @ sec @ ''.'' @ fr))"

definition match_time_at :: "string \<Rightarrow> string option" where
  "match_time_at s = (if take 5 s = ''time='' then match_hms (drop 5 s) else None)"

fun time_re_search :: "string \<Rightarrow> string option" where
  "time_re_search [] = None"
| "time_re_search (c # cs) =
     (case match_time_at (c # cs) of Some g \<Rightarrow> Some g | None \<Rightarrow> time_re_search cs)"

text \<open>\<^verbatim>\<open>tstr.split(":")\<close>.\<close>

fun split_colon :: "string \<Rightarrow> string list" where
  "split_colon [] = [[]]"
| "split_colon (c # cs) =
     (if c = CHR '':'' then [] # split_colon cs
      else (case split_colon cs of [] \<Rightarrow> [[c]] | w # ws \<Rightarrow> (c # w) # ws))"

text \<open>
  \<^verbatim>\<open>int(h)\<close> and \<^verbatim>\<open>float(s)\<close> on the shapes the marker can have: digits, and digits with
  a fraction. Any other text raises \<^verbatim>\<open>ValueError\<close> (\<open>None\<close>). The float is the exact
  decimal value: rounding to a binary double is not modelled.
\<close>

definition py_int :: "string \<Rightarrow> int option" where
  "py_int s = (if s \<noteq> [] \<and> list_all is_digit s then Some (int (nat_of_digits s)) else None)"

definition py_float_dec :: "string \<Rightarrow> real option" where
  "py_float_dec s =
     (let ip = takeWhile is_digit s; r = dropWhile is_digit s in
      case r of
        [] \<Rightarrow> (if ip = [] then None else Some (real (nat_of_digits ip)))
      | c # fp \<Rightarrow>
          (if c = CHR ''.'' \<and> list_all is_digit fp \<and> (ip \<noteq> [] \<or> fp \<noteq> [])
           then Some (real (nat_of_digits ip) + real (nat_of_digits fp) / 10 ^ length fp)
           else None))"

text \<open>
  \<^verbatim>\<open>_time_to_seconds\<close> (universal and avi): any exception gives \<^verbatim>\<open>0.0\<close>.
\<close>

definition time_to_seconds :: "string \<Rightarrow> real" where
  "time_to_seconds tstr =
     (case split_colon tstr of
        [h, m, s] \<Rightarrow>
          (case (py_int h, py_int m, py_float_dec s) of
             (Some hh, Some mm, Some ss) \<Rightarrow> real_of_int hh * 3600 + real_of_int mm * 60 + ss
           | _ \<Rightarrow> 0)
      | _ \<Rightarrow> 0)"

text \<open>\<^verbatim>\<open>t2s\<close> of the mkv worker has no handler: the exception is the result \<open>None\<close>.\<close>

definition t2s :: "string \<Rightarrow> real option" where
  "t2s t =
     (case split_colon t of
        [h, m, s] \<Rightarrow>
          (case (py_int h, py_int m, py_float_dec s) of
             (Some hh, Some mm, Some ss) \<Rightarrow> Some (real_of_int hh * 3600 + real_of_int mm * 60 + ss)
           | _ \<Rightarrow> None)
      | _ \<Rightarrow> None)"

section \<open>The conversion worker\<close>

text \<open>
  The four signals of \<^verbatim>\<open>WorkerSignals\<close>, in the order the worker emits them, are the
  result of a run.
\<close>

datatype event = Started | Progress real | Log string | Finished bool string

text \<open>
  What the outside world does in one run: the probe (\<^verbatim>\<open>subprocess.run\<close> of ffprobe raised or
  timed out, or printed some text), Python's \<^verbatim>\<open>float()\<close> on that text (\<open>None\<close> is
  \<^verbatim>\<open>ValueError\<close>), \<^verbatim>\<open>subprocess.Popen\<close>, the reads of \<^verbatim>\<open>proc.stderr\<close> (a line, or an
  exception with its message), \<^verbatim>\<open>proc.wait()\<close> with the return code, and the moment of
  \<^verbatim>\<open>kill()\<close>: \<open>cancel_after = Some k\<close> says that another thread set the flag when the worker
  had tested it \<open>k\<close> times, \<open>None\<close> that nobody set it.
\<close>

datatype probe = ProbeRaised | ProbeStdout string

datatype spawned = NotFound | StartFailed string | Spawned

datatype read = Line string | ReadRaised string

datatype waited = WaitRaised string | Exit int

record env =
  probe :: probe
  pyfloat :: "string \<Rightarrow> real option"
  spawn :: spawned
  stderr :: "read list"
  wait :: waited
  cancel_after :: "nat option"

record worker =
  input_path :: string
  output_path :: string
  cancel :: bool

definition kill :: "worker \<Rightarrow> worker" where
  "kill w = w\<lparr>cancel := True\<rparr>"

text \<open>The flag as the worker reads it at its \<open>i\<close>-th test (counted from 0).\<close>

definition cancel_seen :: "nat option \<Rightarrow> nat \<Rightarrow> bool" where
  "cancel_seen c i = (case c of None \<Rightarrow> False | Some k \<Rightarrow> k \<le> i)"

text \<open>\<^verbatim>\<open>_get_duration\<close> of the universal and avi workers, \<^verbatim>\<open>get_duration\<close> of the mkv one.\<close>

definition get_duration :: "env \<Rightarrow> real option" where
  "get_duration e =
     (case probe e of
        ProbeRaised \<Rightarrow> None
      | ProbeStdout txt \<Rightarrow> (let out = strip txt in if out \<noteq> [] then pyfloat e out else None))"

definition get_duration_mkv :: "env \<Rightarrow> real option" where
  "get_duration_mkv e =
     (case probe e of ProbeRaised \<Rightarrow> None | ProbeStdout txt \<Rightarrow> pyfloat e (strip txt))"

text \<open>Float division: \<^verbatim>\<open>ZeroDivisionError\<close> is \<open>None\<close>.\<close>

definition py_div :: "real \<Rightarrow> real \<Rightarrow> real option" where
  "py_div a b = (if b = 0 then None else Some (a / b))"

text \<open>
  The body of the loop after the line is logged: the search for the marker, the percent and
  the throttle. The result is the exception's message, or the events emitted and the new
  value of \<^verbatim>\<open>last_pct\<close>.
\<close>

definition progress_step :: "real option \<Rightarrow> real \<Rightarrow> string \<Rightarrow> string + (event list \<times> real)" where
  "progress_step duration last_pct s =
     (case time_re_search s of
        None \<Rightarrow> Inr ([], last_pct)
      | Some g \<Rightarrow>
          (case duration of
             None \<Rightarrow> Inr ([], last_pct)
           | Some d \<Rightarrow>
               if d = 0 then Inr ([], last_pct)
               else (case py_div (time_to_seconds g) d of
                       None \<Rightarrow> Inl ''float division by zero''
                     | Some q \<Rightarrow>
                         (let percent = min 100 (q * 100) in
                          if percent - last_pct \<ge> 0.5 \<or> percent = 100
                          then Inr ([Progress percent], percent)
                          else Inr ([], last_pct)))))"

definition progress_step_avi :: "real option \<Rightarrow> real \<Rightarrow> string \<Rightarrow> string + (event list \<times> real)" where
  "progress_step_avi duration last_pct line =
     (case time_re_search line of
        None \<Rightarrow> Inr ([], last_pct)
      | Some tstr \<Rightarrow>
          (let secs = time_to_seconds tstr in
           case duration of
             None \<Rightarrow> Inr ([], last_pct)
           | Some d \<Rightarrow>
               if d \<noteq> 0 \<and> d > 0
               then (case py_div secs d of
                       None \<Rightarrow> Inl ''float division by zero''
                     | Some q \<Rightarrow>
                         (let percent = min 100 (q * 100) in
                          if percent - last_pct \<ge> 0.5 \<or> percent = 100
                          then Inr ([Progress percent], percent)
                          else Inr ([], last_pct)))
               else Inr ([], last_pct)))"

definition progress_step_mkv :: "real option \<Rightarrow> real \<Rightarrow> string \<Rightarrow> string + (event list \<times> real)" where
  "progress_step_mkv duration last_pct line =
     (case time_re_search line of
        None \<Rightarrow> Inr ([], last_pct)
      | Some g \<Rightarrow>
          (case duration of
             None \<Rightarrow> Inr ([], last_pct)
           | Some d \<Rightarrow>
               if d = 0 then Inr ([], last_pct)
               else (case t2s g of
                       None \<Rightarrow> Inl ''invalid literal''
                     | Some current \<Rightarrow>
                         (case py_div current d of
                            None \<Rightarrow> Inl ''float division by zero''
                          | Some q \<Rightarrow>
                              (let percent = min 100 (q * 100) in
                               if percent - last_pct \<ge> 0.5
                               then Inr ([Progress percent], percent)
                               else Inr ([], last_pct))))))"

text \<open>
  \<^verbatim>\<open>for line in proc.stderr\<close>: the three workers share the shape of the loop and differ in
  the body (\<open>step\<close>) and in what they emit when they see the flag (\<open>on_cancel\<close>). The loop
  ends because the stream ends, because the worker returned on the flag, or because an
  exception left it.
\<close>

datatype loop_exit = Exhausted | Returned | Raised string

fun read_loop ::
  "(real \<Rightarrow> string \<Rightarrow> string + (event list \<times> real)) \<Rightarrow> event list \<Rightarrow> nat option \<Rightarrow>
   nat \<Rightarrow> real \<Rightarrow> read list \<Rightarrow> event list \<times> loop_exit" where
  "read_loop step on_cancel c i last_pct [] = ([], Exhausted)"
| "read_loop step on_cancel c i last_pct (ReadRaised e # rs) = ([], Raised e)"
| "read_loop step on_cancel c i last_pct (Line raw # rs) =
     (if cancel_seen c i then (on_cancel, Returned)
      else
        (let s = strip raw; logged = (if s \<noteq> [] then [Log s] else []) in
         case step last_pct s of
           Inl e \<Rightarrow> (logged, Raised e)
         | Inr (emitted, last_pct') \<Rightarrow>
             (case read_loop step on_cancel c (Suc i) last_pct' rs of
                (rest, ex) \<Rightarrow> (logged @ emitted @ rest, ex))))"

text \<open>
  \<^verbatim>\<open>ConvertWorker.run\<close> of the universal converter. The result is the signals emitted and
  the exception that left \<^verbatim>\<open>run\<close>, if one did.
\<close>

definition run :: "worker \<Rightarrow> env \<Rightarrow> event list \<times> string option" where
  "run w e =
     (let duration = get_duration e;
          pre = [Started] @
            (if duration = None
             then [Log ''Could not read duration (ffprobe). Progress will be approximate.'']
             else [])
      in case spawn e of
        NotFound \<Rightarrow>
          (pre @ [Log ''ffmpeg not found. Set path or bundle ffmpeg with the app.'',
                  Finished False []], None)
      | StartFailed msg \<Rightarrow>
          (pre @ [Log (''Failed to start ffmpeg: '' @ msg), Finished False []], None)
      | Spawned \<Rightarrow>
          (case read_loop (progress_step duration)
                  [Log ''Conversion cancelled.'', Finished False []] (cancel_after e) 0 0 (stderr e) of
             (evs, Returned) \<Rightarrow> (pre @ evs, None)
           | (evs, Raised msg) \<Rightarrow>
               (pre @ evs @ [Log (''Error: '' @ msg), Finished False []], None)
           | (evs, Exhausted) \<Rightarrow>
               (case wait e of
                  WaitRaised msg \<Rightarrow>
                    (pre @ evs @ [Log (''Error: '' @ msg), Finished False []], None)
                | Exit rc \<Rightarrow>
                    if rc = 0
                    then (pre @ evs @ [Progress 100, Finished True (output_path w)], None)
                    else (pre @ evs @ [Log (''ffmpeg exited with code '' @ str_int rc),
                                       Finished False []], None))))"

text \<open>\<^verbatim>\<open>ConvertWorker.run\<close> of the avi converter.\<close>

definition run_avi :: "worker \<Rightarrow> env \<Rightarrow> event list \<times> string option" where
  "run_avi w e =
     (let duration = get_duration e;
          pre = [Started] @
            (if duration = None
             then [Log ''Could not determine duration (ffprobe missing or failed). Progress may be unavailable.'']
             else [])
      in case spawn e of
        NotFound \<Rightarrow>
          (pre @ [Log ''ffmpeg executable not found. Please ensure ffmpeg is installed and in PATH or set the path in settings.'',
                  Finished False []], None)
      | StartFailed msg \<Rightarrow>
          (pre @ [Log (''Failed to start ffmpeg: '' @ msg), Finished False []], None)
      | Spawned \<Rightarrow>
          (case read_loop (progress_step_avi duration)
                  [Log ''Cancelled.'', Finished False []] (cancel_after e) 0 0 (stderr e) of
             (evs, Returned) \<Rightarrow> (pre @ evs, None)
           | (evs, Raised msg) \<Rightarrow>
               (pre @ evs @ [Log (''Error during conversion: '' @ msg), Finished False []], None)
           | (evs, Exhausted) \<Rightarrow>
               (case wait e of
                  WaitRaised msg \<Rightarrow>
                    (pre @ evs @ [Log (''Error during conversion: '' @ msg), Finished False []], None)
                | Exit rc \<Rightarrow>
                    if rc = 0
                    then (pre @ evs @ [Progress 100, Finished True (output_path w)], None)
                    else (pre @ evs @ [Log (''ffmpeg exited with code '' @ str_int rc),
                                       Finished False []], None))))"

text \<open>
  \<^verbatim>\<open>ConvertWorker.run\<close> of the mkv converter: only \<^verbatim>\<open>FileNotFoundError\<close> of \<^verbatim>\<open>Popen\<close> has a
  handler, and the loop and \<^verbatim>\<open>process.wait()\<close> stand outside any \<^verbatim>\<open>try\<close>.
\<close>

definition run_mkv :: "worker \<Rightarrow> env \<Rightarrow> event list \<times> string option" where
  "run_mkv w e =
     (let duration = get_duration_mkv e;
          pre = [Started] @
            (if duration = None
             then [Log ''Could not read duration (ffprobe error). Progress may be inaccurate.'']
             else [])
      in case spawn e of
        NotFound \<Rightarrow>
          (pre @ [Log ''FFmpeg not found! Set correct ffmpeg path.'', Finished False []], None)
      | StartFailed msg \<Rightarrow> (pre, Some msg)
      | Spawned \<Rightarrow>
          (case read_loop (progress_step_mkv duration) [Finished False []] (cancel_after e) 0 0
                  (stderr e) of
             (evs, Returned) \<Rightarrow> (pre @ evs, None)
           | (evs, Raised msg) \<Rightarrow> (pre @ evs, Some msg)
           | (evs, Exhausted) \<Rightarrow>
               (case wait e of
                  WaitRaised msg \<Rightarrow> (pre @ evs, Some msg)
                | Exit rc \<Rightarrow>
                    if rc = 0
                    then (pre @ evs @ [Progress 100, Finished True (output_path w)], None)
                    else (pre @ evs @ [Finished False []], None))))"

text \<open>What a listener sees of a run.\<close>

fun progress_values :: "event list \<Rightarrow> real list" where
  "progress_values [] = []"
| "progress_values (Progress p # es) = p # progress_values es"
| "progress_values (_ # es) = progress_values es"

fun outcomes :: "event list \<Rightarrow> bool list" where
  "outcomes [] = []"
| "outcomes (Finished ok out # es) = ok # outcomes es"
| "outcomes (_ # es) = outcomes es"

fun logged_lines :: "event list \<Rightarrow> string list" where
  "logged_lines [] = []"
| "logged_lines (Log s # es) = s # logged_lines es"
| "logged_lines (_ # es) = logged_lines es"

section \<open>Paths\<close>

text \<open>
  \<^verbatim>\<open>os.path.splitext\<close> (POSIX): the extension starts at the last dot of the last component,
  unless that component has only leading dots before it. \<open>rfind\<close> is \<^verbatim>\<open>str.rfind\<close> of one
  character, \<open>-1\<close> when it is absent.
\<close>

fun rfind_from :: "nat \<Rightarrow> char \<Rightarrow> string \<Rightarrow> int \<Rightarrow> int" where
  "rfind_from i c [] found = found"
| "rfind_from i c (x # xs) found = rfind_from (Suc i) c xs (if x = c then int i else found)"

definition rfind :: "string \<Rightarrow> char \<Rightarrow> int" where
  "rfind p c = rfind_from 0 c p (- 1)"

definition splitext :: "string \<Rightarrow> string \<times> string" where
  "splitext p =
     (let sepIndex = rfind p CHR ''/''; dotIndex = rfind p CHR ''.'' in
      if dotIndex > sepIndex \<and>
         list_ex (\<lambda>c. c \<noteq> CHR ''.'') (take (nat (dotIndex - (sepIndex + 1))) (drop (nat (sepIndex + 1)) p))
      then (take (nat dotIndex) p, drop (nat dotIndex) p)
      else (p, []))"

text \<open>\<^verbatim>\<open>os.path.join(dirpath, fn)\<close> (POSIX, two components).\<close>

definition path_join :: "string \<Rightarrow> string \<Rightarrow> string" where
  "path_join dirpath fn =
     (if take 1 fn = ''/'' then fn
      else if dirpath = [] \<or> endswith dirpath ''/'' then dirpath @ fn
      else dirpath @ ''/'' @ fn)"

definition INPUT_EXTS :: "string list" where
  "INPUT_EXTS = [''.avi'', ''.mkv'', ''.mov'', ''.wmv'', ''.flv'', ''.mts'', ''.mpg'', ''.mpeg'',
                 ''.mp4'', ''.m4v'', ''.3gp'', ''.3g2'', ''.ts'', ''.webm'', ''.vob'']"

section \<open>The main window: registry, pool and watcher\<close>

text \<open>
  \<^verbatim>\<open>self.items\<close> maps a source path to its metadata; a Python dict keeps insertion order, so
  it is an association list whose keys are distinct. Of the widget of a job, \<open>dst\<close> is its
  output path and \<open>bar\<close> the value of its progress bar. \<open>job_worker\<close> is \<^verbatim>\<open>meta["worker"]\<close>.
  Labels, log text and the paths of the executables are not part of the model.
\<close>

datatype status = Queued | Running | Done | Failed

record meta =
  dst :: string
  bar :: int
  job_worker :: "worker option"
  status :: status

text \<open>
  \<open>watched\<close> is \<^verbatim>\<open>self.watched\<close>, \<open>watcher_dirs\<close> the directories of the
  \<^verbatim>\<open>QFileSystemWatcher\<close>, \<open>chk_watch\<close> the check box, \<open>max_thread_count\<close> the capacity of
  the \<^verbatim>\<open>QThreadPool\<close>, and \<open>submitted\<close> the input paths of the workers handed to
  \<^verbatim>\<open>threadpool.start\<close>, in order. When the pool runs a worker is Qt's business.
\<close>

record window =
  items :: "(string \<times> meta) list"
  watched :: "string set"
  watcher_dirs :: "string set"
  chk_watch :: bool
  max_thread_count :: int
  submitted :: "string list"

definition init_window :: "int \<Rightarrow> window" where
  "init_window n =
     \<lparr>items = [], watched = {}, watcher_dirs = {}, chk_watch = False, max_thread_count = n,
      submitted = []\<rparr>"

text \<open>\<^verbatim>\<open>meta = self.items.get(p)\<close> followed by assignments to \<^verbatim>\<open>meta[...]\<close>.\<close>

definition upd :: "string \<Rightarrow> (meta \<Rightarrow> meta) \<Rightarrow> (string \<times> meta) list \<Rightarrow> (string \<times> meta) list" where
  "upd p f xs = map (\<lambda>(k, m). if k = p then (k, f m) else (k, m)) xs"

text \<open>
  \<^verbatim>\<open>_add_file\<close> of the universal converter. \<open>ap\<close> is \<^verbatim>\<open>os.path.abspath\<close>, which depends on the
  working directory of the process.
\<close>

definition add_file :: "(string \<Rightarrow> string) \<Rightarrow> string \<Rightarrow> window \<Rightarrow> window" where
  "add_file ap path s =
     (let ext = lower (snd (splitext path)) in
      if ext \<notin> set INPUT_EXTS then s
      else
        (let path' = ap path in
         if map_of (items s) path' \<noteq> None then s
         else
           (let out = fst (splitext path') @ ''.mp4'' in
            s\<lparr>items := items s @
                 [(path', \<lparr>dst = out, bar = 0, job_worker = None, status = Queued\<rparr>)]\<rparr>)))"

text \<open>\<^verbatim>\<open>add_file\<close> of the mkv converter and \<^verbatim>\<open>_add_file\<close> of the avi one.\<close>

definition add_file_suffix :: "string \<Rightarrow> (string \<Rightarrow> string) \<Rightarrow> string \<Rightarrow> window \<Rightarrow> window" where
  "add_file_suffix suf ap path s =
     (if \<not> endswith (lower path) suf then s
      else
        (let path' = ap path in
         if map_of (items s) path' \<noteq> None then s
         else
           (let out = fst (splitext path') @ ''.mp4'' in
            s\<lparr>items := items s @
                 [(path', \<lparr>dst = out, bar = 0, job_worker = None, status = Queued\<rparr>)]\<rparr>)))"

definition add_file_mkv :: "(string \<Rightarrow> string) \<Rightarrow> string \<Rightarrow> window \<Rightarrow> window" where
  "add_file_mkv = add_file_suffix ''.mkv''"

definition add_file_avi :: "(string \<Rightarrow> string) \<Rightarrow> string \<Rightarrow> window \<Rightarrow> window" where
  "add_file_avi = add_file_suffix ''.avi''"

definition watch_folder :: "string \<Rightarrow> window \<Rightarrow> window" where
  "watch_folder folder s =
     (if folder \<in> watched s then s
      else s\<lparr>watched := insert folder (watched s),
             watcher_dirs := insert folder (watcher_dirs s)\<rparr>)"

text \<open>
  \<^verbatim>\<open>_scan_folder\<close>: \<open>tree\<close> is what \<^verbatim>\<open>os.walk(folder)\<close> yields, the files of each directory.
\<close>

definition scan_files :: "(string \<Rightarrow> string) \<Rightarrow> string \<Rightarrow> string list \<Rightarrow> window \<Rightarrow> window" where
  "scan_files ap dirpath files s =
     foldl (\<lambda>s' fn. if lower (snd (splitext fn)) \<in> set INPUT_EXTS
                     then add_file ap (path_join dirpath fn) s' else s') s files"

definition scan_folder ::
  "(string \<Rightarrow> string) \<Rightarrow> (string \<times> string list) list \<Rightarrow> string \<Rightarrow> window \<Rightarrow> window" where
  "scan_folder ap tree folder s =
     (let s' = foldl (\<lambda>s' (dirpath, files). scan_files ap dirpath files s') s tree in
      if chk_watch s' then watch_folder folder s' else s')"

definition on_folder_changed ::
  "(string \<Rightarrow> string) \<Rightarrow> (string \<times> string list) list \<Rightarrow> string \<Rightarrow> window \<Rightarrow> window" where
  "on_folder_changed ap tree folder s = scan_folder ap tree folder s"

text \<open>
  \<^verbatim>\<open>_toggle_watch\<close> (universal) and \<^verbatim>\<open>toggle_watch\<close> (mkv). The signal carries the new state
  of the check box: 0 is unchecked.
\<close>

definition toggle_watch :: "int \<Rightarrow> window \<Rightarrow> window" where
  "toggle_watch state s =
     (let s' = s\<lparr>chk_watch := (state \<noteq> 0)\<rparr> in
      if state = 0
      then s'\<lparr>watcher_dirs := watcher_dirs s' - watched s', watched := {}\<rparr>
      else s')"

text \<open>
  \<^verbatim>\<open>update_watch\<close> (avi): \<^verbatim>\<open>Qt.Checked\<close> is 2; \<open>exists\<close> is \<^verbatim>\<open>os.path.exists\<close>.
\<close>

definition update_watch :: "(string \<Rightarrow> bool) \<Rightarrow> int \<Rightarrow> window \<Rightarrow> window" where
  "update_watch exists state s =
     (let s' = s\<lparr>chk_watch := (state \<noteq> 0)\<rparr> in
      if state = 2
      then s'\<lparr>watcher_dirs := watcher_dirs s' \<union> {p \<in> watched s'. exists p}\<rparr>
      else s'\<lparr>watcher_dirs := watcher_dirs s' - watched s', watched := {}\<rparr>)"

text \<open>\<^verbatim>\<open>_start_conversion\<close> and \<^verbatim>\<open>start_all\<close>.\<close>

definition start_conversion :: "string \<Rightarrow> window \<Rightarrow> window" where
  "start_conversion src_path s =
     (case map_of (items s) src_path of
        None \<Rightarrow> s
      | Some m \<Rightarrow>
          (let w = \<lparr>input_path = src_path, output_path = dst m, cancel = False\<rparr> in
           s\<lparr>items := upd src_path (\<lambda>m. m\<lparr>job_worker := Some w, status := Running\<rparr>) (items s),
             submitted := submitted s @ [src_path]\<rparr>))"

definition eligible :: "meta \<Rightarrow> bool" where
  "eligible m = (status m = Queued \<or> status m = Failed)"

definition start_all :: "window \<Rightarrow> window" where
  "start_all s =
     (let queue = map fst (filter (\<lambda>(p, m). eligible m) (items s)) in
      if queue = [] then s else foldl (\<lambda>s' p. start_conversion p s') s queue)"

definition set_threads :: "int \<Rightarrow> window \<Rightarrow> window" where
  "set_threads n s = s\<lparr>max_thread_count := n\<rparr>"

text \<open>\<^verbatim>\<open>start_all\<close> of the avi converter applies the spin box value first.\<close>

definition start_all_avi :: "int \<Rightarrow> window \<Rightarrow> window" where
  "start_all_avi spin s = start_all (set_threads spin s)"

text \<open>
  The slots of the worker's signals. \<^verbatim>\<open>int(p)\<close> truncates towards zero; \<^verbatim>\<open>set_done\<close> fills
  the bar on success only.
\<close>

definition py_trunc :: "real \<Rightarrow> int" where
  "py_trunc x = (if x \<ge> 0 then \<lfloor>x\<rfloor> else \<lceil>x\<rceil>)"

definition on_progress :: "string \<Rightarrow> real \<Rightarrow> window \<Rightarrow> window" where
  "on_progress src percent s =
     (case map_of (items s) src of
        None \<Rightarrow> s
      | Some m \<Rightarrow> s\<lparr>items := upd src (\<lambda>m. m\<lparr>bar := py_trunc percent\<rparr>) (items s)\<rparr>)"

definition on_finished :: "string \<Rightarrow> bool \<Rightarrow> window \<Rightarrow> window" where
  "on_finished src ok s =
     (case map_of (items s) src of
        None \<Rightarrow> s
      | Some m \<Rightarrow>
          s\<lparr>items := upd src
               (\<lambda>m. m\<lparr>status := (if ok then Done else Failed), job_worker := None,
                      bar := (if ok then 100 else bar m)\<rparr>) (items s)\<rparr>)"

text \<open>\<^verbatim>\<open>stop_all\<close>, \<^verbatim>\<open>_cancel_item\<close> and \<^verbatim>\<open>_remove_item\<close>.\<close>

definition stop_all :: "window \<Rightarrow> window" where
  "stop_all s =
     s\<lparr>items := map (\<lambda>(p, m). (p, case job_worker m of
                                      None \<Rightarrow> m
                                    | Some w \<Rightarrow> m\<lparr>job_worker := Some (kill w)\<rparr>)) (items s)\<rparr>"

definition remove_item :: "string \<Rightarrow> window \<Rightarrow> window" where
  "remove_item src s = s\<lparr>items := filter (\<lambda>(k, m). k \<noteq> src) (items s)\<rparr>"

definition cancel_item :: "string \<Rightarrow> window \<Rightarrow> window" where
  "cancel_item src s =
     (case map_of (items s) src of
        None \<Rightarrow> s
      | Some m \<Rightarrow>
          (case job_worker m of
             Some w \<Rightarrow> s\<lparr>items := upd src (\<lambda>m. m\<lparr>job_worker := Some (kill w)\<rparr>) (items s)\<rparr>
           | None \<Rightarrow> remove_item src s))"

text \<open>
  \<^verbatim>\<open>cancel_item\<close> and \<^verbatim>\<open>remove_item\<close> of the mkv converter index the dict:
  \<^verbatim>\<open>KeyError\<close> is \<open>None\<close>.
\<close>

definition remove_item_mkv :: "string \<Rightarrow> window \<Rightarrow> window option" where
  "remove_item_mkv path s =
     (case map_of (items s) path of
        None \<Rightarrow> None
      | Some m \<Rightarrow> Some (s\<lparr>items := filter (\<lambda>(k, m). k \<noteq> path) (items s)\<rparr>))"

definition cancel_item_mkv :: "string \<Rightarrow> window \<Rightarrow> window option" where
  "cancel_item_mkv path s =
     (case map_of (items s) path of
        None \<Rightarrow> None
      | Some m \<Rightarrow>
          (case job_worker m of
             Some w \<Rightarrow> Some (s\<lparr>items := upd path (\<lambda>m. m\<lparr>job_worker := Some (kill w)\<rparr>) (items s)\<rparr>)
           | None \<Rightarrow> remove_item_mkv path s))"

text \<open>
  \<^verbatim>\<open>_refresh_overall\<close> (universal, avi) and \<^verbatim>\<open>update_overall\<close> (mkv): the value of the overall
  bar, the two counts of the label and the average the label prints (none for \<^verbatim>\<open>0/0\<close>).
\<close>

record overall =
  ov_bar :: int
  ov_done :: nat
  ov_total :: nat
  ov_avg :: "real option"

definition refresh_overall :: "window \<Rightarrow> overall" where
  "refresh_overall s =
     (let total = length (items s) in
      if total = 0 then \<lparr>ov_bar = 0, ov_done = 0, ov_total = 0, ov_avg = None\<rparr>
      else
        (let n_done = length (filter (\<lambda>(p, m). status m = Done) (items s));
             avg = real_of_int (sum_list (map (\<lambda>(p, m). bar m) (items s))) / real total
         in \<lparr>ov_bar = py_trunc avg, ov_done = n_done, ov_total = total, ov_avg = Some avg\<rparr>))"

definition update_overall :: "window \<Rightarrow> overall" where
  "update_overall s =
     (let total = length (items s) in
      if total = 0 then \<lparr>ov_bar = 0, ov_done = 0, ov_total = 0, ov_avg = None\<rparr>
      else
        (let n_done = length (filter (\<lambda>(p, m). status m = Done) (items s));
             percent = real_of_int (sum_list (map (\<lambda>(p, m). bar m) (items s))) / real total
         in \<lparr>ov_bar = py_trunc percent, ov_done = n_done, ov_total = total, ov_avg = Some percent\<rparr>))"

section \<open>Executions of the window\<close>

text \<open>
  The states the window can be in: the user's actions, the watcher's notifications, and the
  signals of the workers. A worker emits \<^verbatim>\<open>progress\<close> only before its one \<^verbatim>\<open>finished\<close>, and
  the slots run in emission order, so \<^verbatim>\<open>_on_progress\<close> and \<^verbatim>\<open>_on_finished\<close> run for a job
  whose worker is still registered.
\<close>

inductive reachable :: "window \<Rightarrow> bool" where
  r_init: "reachable (init_window n)"
| r_add_file: "reachable s \<Longrightarrow> reachable (add_file ap path s)"
| r_scan_folder: "reachable s \<Longrightarrow> reachable (scan_folder ap tree folder s)"
| r_folder_changed: "reachable s \<Longrightarrow> reachable (on_folder_changed ap tree folder s)"
| r_toggle_watch: "reachable s \<Longrightarrow> reachable (toggle_watch state s)"
| r_start_all: "reachable s \<Longrightarrow> reachable (start_all s)"
| r_set_threads: "reachable s \<Longrightarrow> reachable (set_threads n s)"
| r_progress:
    "reachable s \<Longrightarrow> map_of (items s) src = Some m \<Longrightarrow> job_worker m \<noteq> None \<Longrightarrow>
     reachable (on_progress src percent s)"
| r_finished:
    "reachable s \<Longrightarrow> map_of (items s) src = Some m \<Longrightarrow> job_worker m \<noteq> None \<Longrightarrow>
     reachable (on_finished src ok s)"
| r_stop_all: "reachable s \<Longrightarrow> reachable (stop_all s)"
| r_cancel_item: "reachable s \<Longrightarrow> reachable (cancel_item src s)"

text \<open>Counting the registry.\<close>

definition running_count :: "window \<Rightarrow> nat" where
  "running_count s = length (filter (\<lambda>(p, m). status m = Running) (items s))"

definition eligible_count :: "window \<Rightarrow> nat" where
  "eligible_count s = length (filter (\<lambda>(p, m). eligible m) (items s))"

definition jobs_at :: "string \<Rightarrow> window \<Rightarrow> nat" where
  "jobs_at p s = length (filter (\<lambda>(k, m). k = p) (items s))"

text \<open>
  The convention of the aggregate in the specification's words: a queued job counts 0, a
  done job 100, a running or failed job the value its bar last recorded.
\<close>

definition contribution :: "meta \<Rightarrow> int" where
  "contribution m =
     (case status m of Queued \<Rightarrow> 0 | Done \<Rightarrow> 100 | Running \<Rightarrow> bar m | Failed \<Rightarrow> bar m)"

definition mean_percent :: "window \<Rightarrow> real" where
  "mean_percent s =
     real_of_int (sum_list (map (\<lambda>(p, m). contribution m) (items s))) / real (length (items s))"

text \<open>What the loop emits for lines when it computes no percent: each line that is not blank.\<close>

definition plain_events :: "string list \<Rightarrow> event list" where
  "plain_events ls = map Log (filter (\<lambda>s. s \<noteq> []) (map strip ls))"

definition no_duration :: "real option \<Rightarrow> bool" where
  "no_duration d = (d = None \<or> d = Some 0)"

text \<open>
  What a loop body may do: emit nothing and keep \<^verbatim>\<open>last\<close>, or emit one percent of at most
  100 that passes the throttle and becomes \<^verbatim>\<open>last\<close>.
\<close>

definition quiet :: "(real \<Rightarrow> string \<Rightarrow> string + (event list \<times> real)) \<Rightarrow> bool" where
  "quiet step =
     (\<forall>l s evs l'. step l s = Inr (evs, l') \<longrightarrow>
        (evs = [] \<and> l' = l) \<or>
        (\<exists>p. evs = [Progress p] \<and> l' = p \<and> p \<le> 100 \<and> (p - l \<ge> 1/2 \<or> p = 100)))"

text \<open>
  What holds of every entry of the registry in every execution: a job has a worker exactly
  while it is running, the bar of a queued job is at 0 and the bar of a done job at 100.
\<close>

definition meta_ok :: "meta \<Rightarrow> bool" where
  "meta_ok m =
     ((job_worker m = None) = (status m \<noteq> Running) \<and>
      (status m \<noteq> Queued \<or> bar m = 0) \<and> (status m \<noteq> Done \<or> bar m = 100))"

definition registry_ok :: "window \<Rightarrow> bool" where
  "registry_ok s = (distinct (map fst (items s)) \<and> list_all (\<lambda>(k, m). meta_ok m) (items s))"

text \<open>The test of the extension at the head of \<^verbatim>\<open>_add_file\<close>.\<close>

definition allowed :: "string \<Rightarrow> bool" where
  "allowed path = (lower (snd (splitext path)) \<in> set INPUT_EXTS)"

text \<open>The paths a scan passes to \<^verbatim>\<open>_add_file\<close>, in order.\<close>

definition scan_paths :: "(string \<times> string list) list \<Rightarrow> string list" where
  "scan_paths tree =
     concat (map (\<lambda>(dirpath, files). map (path_join dirpath) (filter allowed files)) tree)"

definition enqueue_all :: "(string \<Rightarrow> string) \<Rightarrow> string list \<Rightarrow> window \<Rightarrow> window" where
  "enqueue_all ap paths s = foldl (\<lambda>s' q. add_file ap q s') s paths"

text \<open>A file system in which every watched directory still exists.\<close>

definition every_path_exists :: "string \<Rightarrow> bool" where
  "every_path_exists p = True"

text \<open>The registry as a listener sees it: each source path with the state of its job.\<close>

definition job_states :: "window \<Rightarrow> (string \<times> status) list" where
  "job_states s = map (\<lambda>(k, m). (k, status m)) (items s)"

section \<open>Properties of the worker\<close>

subsection \<open>Projections and the loop\<close>

lemma progress_values_append:
  "progress_values (xs @ ys) = progress_values xs @ progress_values ys"
  by (induction xs rule: progress_values.induct) auto

lemma outcomes_append: "outcomes (xs @ ys) = outcomes xs @ outcomes ys"
  by (induction xs rule: outcomes.induct) auto

lemma quiet_progress_step: "quiet (progress_step d)"
  unfolding quiet_def progress_step_def
  by (auto split: option.splits if_splits simp: Let_def)

lemma quiet_progress_step_avi: "quiet (progress_step_avi d)"
  unfolding quiet_def progress_step_avi_def
  by (auto split: option.splits if_splits simp: Let_def)

lemma quiet_progress_step_mkv: "quiet (progress_step_mkv d)"
  unfolding quiet_def progress_step_mkv_def
  by (auto split: option.splits if_splits simp: Let_def)

lemma read_loop_Line_Inr:
  "\<not> cancel_seen c i \<Longrightarrow> step l (strip raw) = Inr (evs, l') \<Longrightarrow>
   read_loop step oc c i l (Line raw # rs) =
     ((if strip raw \<noteq> [] then [Log (strip raw)] else []) @ evs @
        fst (read_loop step oc c (Suc i) l' rs),
      snd (read_loop step oc c (Suc i) l' rs))"
  by (simp add: Let_def split: prod.splits)

text \<open>The loop itself emits \<^verbatim>\<open>finished\<close> only when it returns on the flag.\<close>

lemma read_loop_outcomes:
  assumes "quiet step"
  shows "outcomes (fst (read_loop step oc c i l rs)) =
           (if snd (read_loop step oc c i l rs) = Returned then outcomes oc else [])"
  using assms
proof (induction step oc c i l rs rule: read_loop.induct)
  case (3 step oc c i l raw rs)
  show ?case
  proof (cases "cancel_seen c i")
    case True
    then show ?thesis by simp
  next
    case False
    show ?thesis
    proof (cases "step l (strip raw)")
      case (Inl e)
      with False show ?thesis by (simp add: Let_def)
    next
      case (Inr r)
      obtain evs l' where r: "r = (evs, l')" by (cases r)
      from "3.prems" Inr r have q: "outcomes evs = []"
        unfolding quiet_def by fastforce
      have ih: "outcomes (fst (read_loop step oc c (Suc i) l' rs)) =
           (if snd (read_loop step oc c (Suc i) l' rs) = Returned then outcomes oc else [])"
        using "3.IH"[OF False refl refl Inr[unfolded r] refl] "3.prems" by simp
      show ?thesis
        unfolding read_loop_Line_Inr[where step=step and l=l and raw=raw, OF False Inr[unfolded r]]
        using q ih by (simp add: outcomes_append)
    qed
  qed
qed simp_all

text \<open>A flag set before one of the tests still to come keeps the loop from running out.\<close>

lemma read_loop_cancel:
  "c = Some k \<Longrightarrow> i \<le> k \<Longrightarrow> k < i + length rs \<Longrightarrow>
   snd (read_loop step oc c i l rs) \<noteq> Exhausted"
proof (induction step oc c i l rs rule: read_loop.induct)
  case (3 step oc c i l raw rs)
  show ?case
  proof (cases "cancel_seen c i")
    case True
    then show ?thesis by simp
  next
    case False
    with "3.prems" have k: "k < Suc i + length rs" "Suc i \<le> k"
      by (auto simp: cancel_seen_def)
    show ?thesis
    proof (cases "step l (strip raw)")
      case (Inl e)
      with False show ?thesis by (simp add: Let_def)
    next
      case (Inr r)
      obtain evs l' where r: "r = (evs, l')" by (cases r)
      have "snd (read_loop step oc c (Suc i) l' rs) \<noteq> Exhausted"
        using "3.IH"[OF False refl refl Inr[unfolded r] refl] "3.prems"(1) k by simp
      then show ?thesis
        unfolding read_loop_Line_Inr[where step=step and l=l and raw=raw, OF False Inr[unfolded r]]
        by simp
    qed
  qed
qed simp_all

lemma read_loop_throttle:
  assumes "quiet step" "progress_values oc = []"
  shows "successively (\<lambda>a b. b - a \<ge> 1/2 \<or> b = 100)
           (l # progress_values (fst (read_loop step oc c i l rs)))"
  using assms
proof (induction step oc c i l rs rule: read_loop.induct)
  case (3 step oc c i l raw rs)
  show ?case
  proof (cases "cancel_seen c i")
    case True
    then show ?thesis using "3.prems" by simp
  next
    case False
    show ?thesis
    proof (cases "step l (strip raw)")
      case (Inl e)
      with False show ?thesis by (simp add: Let_def)
    next
      case (Inr r)
      obtain evs l' where r: "r = (evs, l')" by (cases r)
      have ih: "successively (\<lambda>a b. b - a \<ge> 1/2 \<or> b = 100)
                  (l' # progress_values (fst (read_loop step oc c (Suc i) l' rs)))"
        using "3.IH"[OF False refl refl Inr[unfolded r] refl] "3.prems" by simp
      from "3.prems" Inr r
      have "(evs = [] \<and> l' = l) \<or>
            (\<exists>p. evs = [Progress p] \<and> l' = p \<and> p \<le> 100 \<and> (p - l \<ge> 1/2 \<or> p = 100))"
        unfolding quiet_def by blast
      then show ?thesis
        unfolding read_loop_Line_Inr[where step=step and l=l and raw=raw, OF False Inr[unfolded r]]
        using ih by (auto simp: progress_values_append)
    qed
  qed
qed simp_all

lemma read_loop_bounds:
  assumes "quiet step" "progress_values oc = []" "0 \<le> l" "l \<le> 100"
  shows "sorted (l # progress_values (fst (read_loop step oc c i l rs))) \<and>
         (\<forall>p \<in> set (progress_values (fst (read_loop step oc c i l rs))). p \<le> 100)"
  using assms
proof (induction step oc c i l rs rule: read_loop.induct)
  case (3 step oc c i l raw rs)
  show ?case
  proof (cases "cancel_seen c i")
    case True
    then show ?thesis using "3.prems" by simp
  next
    case False
    show ?thesis
    proof (cases "step l (strip raw)")
      case (Inl e)
      with False show ?thesis by (simp add: Let_def)
    next
      case (Inr r)
      obtain evs l' where r: "r = (evs, l')" by (cases r)
      from "3.prems" Inr r
      have st: "(evs = [] \<and> l' = l) \<or>
                (\<exists>p. evs = [Progress p] \<and> l' = p \<and> p \<le> 100 \<and> (p - l \<ge> 1/2 \<or> p = 100))"
        unfolding quiet_def by blast
      then have l': "0 \<le> l'" "l' \<le> 100" "l \<le> l'"
        using "3.prems" by auto
      let ?pv = "progress_values (fst (read_loop step oc c (Suc i) l' rs))"
      have ih: "sorted (l' # ?pv) \<and> (\<forall>p \<in> set ?pv. p \<le> 100)"
        using "3.IH"[OF False refl refl Inr[unfolded r] refl] "3.prems" l' by simp
      then have lo: "\<forall>p \<in> set ?pv. l \<le> p"
        using l'(3) by auto
      have pv: "progress_values evs = [] \<or> progress_values evs = [l']"
        using st by auto
      show ?thesis
        unfolding read_loop_Line_Inr[where step=step and l=l and raw=raw, OF False Inr[unfolded r]]
        using ih lo pv l' by (auto simp: progress_values_append)
    qed
  qed
qed simp_all

text \<open>With no usable duration the body of every loop emits nothing.\<close>

lemma no_duration_step:
  assumes "no_duration d"
  shows "progress_step d l s = Inr ([], l)" "progress_step_avi d l s = Inr ([], l)"
        "progress_step_mkv d l s = Inr ([], l)"
  using assms
  by (auto simp: no_duration_def progress_step_def progress_step_avi_def progress_step_mkv_def
      Let_def split: option.splits)

lemma read_loop_silent:
  assumes "\<And>l s. step l s = Inr ([], l)" and "progress_values oc = []"
  shows "progress_values (fst (read_loop step oc c i l rs)) = []"
proof (induction rs arbitrary: i)
  case Nil
  show ?case by simp
next
  case (Cons r rs)
  show ?case
  proof (cases r)
    case (ReadRaised m)
    then show ?thesis by simp
  next
    case (Line raw)
    show ?thesis
    proof (cases "cancel_seen c i")
      case True
      then show ?thesis using Line assms(2) by simp
    next
      case False
      have st: "step l (strip raw) = Inr ([], l)"
        using assms(1) by simp
      show ?thesis
        unfolding Line read_loop_Line_Inr[where step=step and l=l and raw=raw, OF False st]
        using Cons.IH[of "Suc i"] by (simp add: progress_values_append)
    qed
  qed
qed

lemma read_loop_plain:
  assumes "\<And>l s. step l s = Inr ([], l)"
  shows "read_loop step oc None i l (map Line ls) = (plain_events ls, Exhausted)"
proof (induction ls arbitrary: i)
  case Nil
  show ?case by (simp add: plain_events_def)
next
  case (Cons raw ls)
  have nc: "\<not> cancel_seen None i"
    by (simp add: cancel_seen_def)
  have st: "step l (strip raw) = Inr ([], l)"
    using assms by simp
  show ?case
    using read_loop_Line_Inr[where step=step and l=l and raw=raw and c=None and i=i
        and oc=oc and rs="map Line ls", OF nc st] Cons.IH[of "Suc i"]
    by (simp add: plain_events_def)
qed

subsection \<open>The runs in terms of their loop\<close>

lemma run_progress_values:
  "progress_values (fst (run w e)) =
     (let r = read_loop (progress_step (get_duration e))
                [Log ''Conversion cancelled.'', Finished False []] (cancel_after e) 0 0 (stderr e)
      in if spawn e = Spawned
         then progress_values (fst r) @ (if snd r = Exhausted \<and> wait e = Exit 0 then [100] else [])
         else [])"
  by (auto simp: run_def Let_def progress_values_append
      split: spawned.splits loop_exit.splits waited.splits prod.splits)

lemma run_avi_progress_values:
  "progress_values (fst (run_avi w e)) =
     (let r = read_loop (progress_step_avi (get_duration e))
                [Log ''Cancelled.'', Finished False []] (cancel_after e) 0 0 (stderr e)
      in if spawn e = Spawned
         then progress_values (fst r) @ (if snd r = Exhausted \<and> wait e = Exit 0 then [100] else [])
         else [])"
  by (auto simp: run_avi_def Let_def progress_values_append
      split: spawned.splits loop_exit.splits waited.splits prod.splits)

lemma run_mkv_progress_values:
  "progress_values (fst (run_mkv w e)) =
     (let r = read_loop (progress_step_mkv (get_duration_mkv e))
                [Finished False []] (cancel_after e) 0 0 (stderr e)
      in if spawn e = Spawned
         then progress_values (fst r) @ (if snd r = Exhausted \<and> wait e = Exit 0 then [100] else [])
         else [])"
  by (auto simp: run_mkv_def Let_def progress_values_append
      split: spawned.splits loop_exit.splits waited.splits prod.splits)

lemma run_outcomes:
  "outcomes (fst (run w e)) =
     (let r = read_loop (progress_step (get_duration e))
                [Log ''Conversion cancelled.'', Finished False []] (cancel_after e) 0 0 (stderr e)
      in if spawn e = Spawned
         then outcomes (fst r) @
                (if snd r = Returned then [] else [snd r = Exhausted \<and> wait e = Exit 0])
         else [False])"
  by (auto simp: run_def Let_def outcomes_append
      split: spawned.splits loop_exit.splits waited.splits prod.splits)

lemma run_avi_outcomes:
  "outcomes (fst (run_avi w e)) =
     (let r = read_loop (progress_step_avi (get_duration e))
                [Log ''Cancelled.'', Finished False []] (cancel_after e) 0 0 (stderr e)
      in if spawn e = Spawned
         then outcomes (fst r) @
                (if snd r = Returned then [] else [snd r = Exhausted \<and> wait e = Exit 0])
         else [False])"
  by (auto simp: run_avi_def Let_def outcomes_append
      split: spawned.splits loop_exit.splits waited.splits prod.splits)

lemma run_mkv_outcomes:
  "outcomes (fst (run_mkv w e)) =
     (let r = read_loop (progress_step_mkv (get_duration_mkv e))
                [Finished False []] (cancel_after e) 0 0 (stderr e)
      in case spawn e of
           NotFound \<Rightarrow> [False]
         | StartFailed msg \<Rightarrow> []
         | Spawned \<Rightarrow>
             outcomes (fst r) @
               (case (snd r, wait e) of (Exhausted, Exit rc) \<Rightarrow> [rc = 0] | _ \<Rightarrow> []))"
  by (auto simp: run_mkv_def Let_def outcomes_append
      split: spawned.splits loop_exit.splits waited.splits prod.splits)

text \<open>
  The universal and the avi worker end every run with exactly one \<^verbatim>\<open>finished\<close>, and no
  exception leaves them.
\<close>

lemma run_one_outcome:
  "length (outcomes (fst (run w e))) = 1 \<and> snd (run w e) = None \<and>
   length (outcomes (fst (run_avi w e))) = 1 \<and> snd (run_avi w e) = None"
proof -
  have a: "length (outcomes (fst (run w e))) = 1"
    using read_loop_outcomes[OF quiet_progress_step, of "get_duration e"
        "[Log ''Conversion cancelled.'', Finished False []]" "cancel_after e" 0 0 "stderr e"]
    by (simp add: run_outcomes Let_def)
  have b: "length (outcomes (fst (run_avi w e))) = 1"
    using read_loop_outcomes[OF quiet_progress_step_avi, of "get_duration e"
        "[Log ''Cancelled.'', Finished False []]" "cancel_after e" 0 0 "stderr e"]
    by (simp add: run_avi_outcomes Let_def)
  have c: "snd (run w e) = None"
    by (simp add: run_def Let_def split: spawned.splits loop_exit.splits waited.splits prod.splits)
  have d: "snd (run_avi w e) = None"
    by (simp add: run_avi_def Let_def split: spawned.splits loop_exit.splits waited.splits prod.splits)
  show ?thesis using a b c d by simp
qed

lemma successively_snoc_100:
  "successively (\<lambda>a b. b - a \<ge> 1/2 \<or> b = (100::real)) xs \<Longrightarrow>
   successively (\<lambda>a b. b - a \<ge> 1/2 \<or> b = 100) (xs @ [100])"
  by (simp add: successively_append_iff)

text \<open>The definitions a concrete run unfolds.\<close>

lemmas run_eval =
  run_def run_mkv_def run_avi_def get_duration_def get_duration_mkv_def strip_def is_space_def
  progress_step_def progress_step_mkv_def progress_step_avi_def match_time_at_def match_hms_def
  expect_digits_def expect_char_def is_digit_def time_to_seconds_def t2s_def py_int_def
  py_float_dec_def nat_of_digits_def digit_val_def py_div_def cancel_seen_def no_duration_def
  plain_events_def Let_def

subsection \<open>Cancellation\<close>

text \<open>
  C1, as stated, fails: \<^verbatim>\<open>kill()\<close> called when the worker has made its last test of the flag
  (here after the only line of the stream, before the process exits with code 0) changes
  nothing, and the run ends with \<^verbatim>\<open>finished(True, output_path)\<close>.
\<close>

theorem cancel_after_last_line_succeeds:
  "run \<lparr>input_path = ''/v/a.avi'', output_path = ''/v/a.mp4'', cancel = True\<rparr>
       \<lparr>probe = ProbeStdout ''120.0'', pyfloat = py_float_dec, spawn = Spawned,
        stderr = [Line ''frame=1 time=00:01:00.00 bitrate=1''], wait = Exit 0,
        cancel_after = Some 1\<rparr> =
     ([Started, Log ''frame=1 time=00:01:00.00 bitrate=1'', Progress 50, Progress 100,
       Finished True ''/v/a.mp4''], None)"
  by (simp add: run_eval)

text \<open>
  C1, amended: when the flag is set before a test of the flag that the stream still allows
  (the worker has tested it \<open>k\<close> times and the stream has more than \<open>k\<close> lines), the run of
  the universal worker emits exactly one \<^verbatim>\<open>finished\<close>, with success false, and no exception
  leaves it, whatever the probe, the start of the process, the lines and the exit code are.
\<close>

theorem cancel_observed_fails:
  assumes "cancel_after e = Some k" and "k < length (stderr e)"
  shows "outcomes (fst (run w e)) = [False] \<and> snd (run w e) = None"
proof (cases "spawn e")
  case Spawned
  let ?r = "read_loop (progress_step (get_duration e))
      [Log ''Conversion cancelled.'', Finished False []] (cancel_after e) 0 0 (stderr e)"
  have ne: "snd ?r \<noteq> Exhausted"
    using read_loop_cancel[OF assms(1), of 0 "stderr e"] assms(2) by simp
  have oc: "outcomes (fst ?r) = (if snd ?r = Returned then [False] else [])"
    using read_loop_outcomes[OF quiet_progress_step] by simp
  obtain evs ex where r: "?r = (evs, ex)" by (cases ?r)
  show ?thesis using Spawned ne oc r
    by (cases ex) (simp_all add: run_def Let_def outcomes_append)
qed (simp_all add: run_def Let_def outcomes_append)

theorem cancel_observed_fails_witness:
  "cancel_after \<lparr>probe = ProbeStdout ''120.0'', pyfloat = py_float_dec, spawn = Spawned,
        stderr = [Line ''frame=1 time=00:01:00.00 bitrate=1'',
                  Line ''frame=2 time=00:01:30.00 bitrate=1''],
        wait = Exit 0, cancel_after = Some 1\<rparr> = Some 1 \<and>
   fst (run \<lparr>input_path = ''/v/a.avi'', output_path = ''/v/a.mp4'', cancel = True\<rparr>
       \<lparr>probe = ProbeStdout ''120.0'', pyfloat = py_float_dec, spawn = Spawned,
        stderr = [Line ''frame=1 time=00:01:00.00 bitrate=1'',
                  Line ''frame=2 time=00:01:30.00 bitrate=1''],
        wait = Exit 0, cancel_after = Some 1\<rparr>) =
     [Started, Log ''frame=1 time=00:01:00.00 bitrate=1'', Progress 50,
      Log ''Conversion cancelled.'', Finished False []] \<and>
   outcomes (fst (run \<lparr>input_path = ''/v/a.avi'', output_path = ''/v/a.mp4'', cancel = True\<rparr>
       \<lparr>probe = ProbeStdout ''120.0'', pyfloat = py_float_dec, spawn = Spawned,
        stderr = [Line ''frame=1 time=00:01:00.00 bitrate=1'',
                  Line ''frame=2 time=00:01:30.00 bitrate=1''],
        wait = Exit 0, cancel_after = Some 1\<rparr>)) = [False]"
proof -
  let ?w = "\<lparr>input_path = ''/v/a.avi'', output_path = ''/v/a.mp4'', cancel = True\<rparr>"
  let ?e = "\<lparr>probe = ProbeStdout ''120.0'', pyfloat = py_float_dec, spawn = Spawned,
        stderr = [Line ''frame=1 time=00:01:00.00 bitrate=1'',
                  Line ''frame=2 time=00:01:30.00 bitrate=1''],
        wait = Exit 0, cancel_after = Some 1\<rparr>"
  have c: "cancel_after ?e = Some 1" by simp
  have n: "1 < length (stderr ?e)" by simp
  have v: "fst (run ?w ?e) =
     [Started, Log ''frame=1 time=00:01:00.00 bitrate=1'', Progress 50,
      Log ''Conversion cancelled.'', Finished False []]"
    by (simp add: run_eval)
  have t: "outcomes (fst (run ?w ?e)) = [False]"
    by (rule cancel_observed_fails[OF c n, THEN conjunct1])
  show ?thesis using c v t by simp
qed

subsection \<open>Throttle and range of the percent\<close>

text \<open>
  C4: in every run of the universal, the mkv and the avi worker, each percent emitted and
  the one emitted before it (0, the initial \<^verbatim>\<open>last\<close>, before the first) differ by at least
  0.5, unless the later one is 100: the loop emits a percent only when it exceeds the last
  emitted one by 0.5 or equals 100, and the percent of exit code 0 is 100.
\<close>

theorem progress_throttled:
  "successively (\<lambda>a b. b - a \<ge> 1/2 \<or> b = 100) (0 # progress_values (fst (run w e))) \<and>
   successively (\<lambda>a b. b - a \<ge> 1/2 \<or> b = 100) (0 # progress_values (fst (run_mkv w e))) \<and>
   successively (\<lambda>a b. b - a \<ge> 1/2 \<or> b = 100) (0 # progress_values (fst (run_avi w e)))"
proof -
  have a: "successively (\<lambda>a b. b - a \<ge> 1/2 \<or> b = 100) (0 # progress_values (fst (run w e)))"
    using read_loop_throttle[OF quiet_progress_step,
        of "[Log ''Conversion cancelled.'', Finished False []]" 0 "get_duration e"
          "cancel_after e" 0 "stderr e"]
      successively_snoc_100[of "0 # _"]
    by (simp add: run_progress_values Let_def)
  have b: "successively (\<lambda>a b. b - a \<ge> 1/2 \<or> b = 100) (0 # progress_values (fst (run_mkv w e)))"
    using read_loop_throttle[OF quiet_progress_step_mkv,
        of "[Finished False []]" 0 "get_duration_mkv e" "cancel_after e" 0 "stderr e"]
      successively_snoc_100[of "0 # _"]
    by (simp add: run_mkv_progress_values Let_def)
  have c: "successively (\<lambda>a b. b - a \<ge> 1/2 \<or> b = 100) (0 # progress_values (fst (run_avi w e)))"
    using read_loop_throttle[OF quiet_progress_step_avi,
        of "[Log ''Cancelled.'', Finished False []]" 0 "get_duration e" "cancel_after e" 0
          "stderr e"]
      successively_snoc_100[of "0 # _"]
    by (simp add: run_avi_progress_values Let_def)
  show ?thesis using a b c by simp
qed

theorem progress_throttled_witness:
  "progress_values (fst (run \<lparr>input_path = ''/v/a.avi'', output_path = ''/v/a.mp4'', cancel = False\<rparr>
       \<lparr>probe = ProbeStdout ''120.0'', pyfloat = py_float_dec, spawn = Spawned,
        stderr = [Line ''time=00:01:00.00'', Line ''time=00:01:00.30'', Line ''time=00:01:00.60'',
                  Line ''time=00:01:59.70'', Line ''time=00:02:00.00''],
        wait = Exit 0, cancel_after = None\<rparr>)) = [50, 101/2, 399/4, 100, 100] \<and>
   successively (\<lambda>a b. b - a \<ge> 1/2 \<or> b = 100) [0, 50, 101/2, 399/4, 100, 100 :: real]"
proof -
  let ?w = "\<lparr>input_path = ''/v/a.avi'', output_path = ''/v/a.mp4'', cancel = False\<rparr>"
  let ?e = "\<lparr>probe = ProbeStdout ''120.0'', pyfloat = py_float_dec, spawn = Spawned,
        stderr = [Line ''time=00:01:00.00'', Line ''time=00:01:00.30'', Line ''time=00:01:00.60'',
                  Line ''time=00:01:59.70'', Line ''time=00:02:00.00''],
        wait = Exit 0, cancel_after = None\<rparr>"
  have v: "progress_values (fst (run ?w ?e)) = [50, 101/2, 399/4, 100, 100]"
    by (simp add: run_eval)
  have t: "successively (\<lambda>a b. b - a \<ge> 1/2 \<or> b = 100) (0 # progress_values (fst (run ?w ?e)))"
    by (rule progress_throttled[where w="?w" and e="?e", THEN conjunct1])
  show ?thesis using v t by simp
qed

text \<open>
  C5: in every run of the universal worker (with a known positive duration as with any
  other) the percents emitted, the 100 of exit code 0 included, lie between 0 and 100 and
  never decrease.
\<close>

theorem progress_bounded_monotone:
  "sorted (progress_values (fst (run w e))) \<and>
   (\<forall>p \<in> set (progress_values (fst (run w e))). 0 \<le> p \<and> p \<le> 100)"
proof -
  let ?r = "read_loop (progress_step (get_duration e))
                [Log ''Conversion cancelled.'', Finished False []] (cancel_after e) 0 0 (stderr e)"
  have b: "sorted (0 # progress_values (fst ?r)) \<and> (\<forall>p \<in> set (progress_values (fst ?r)). p \<le> 100)"
    using read_loop_bounds[OF quiet_progress_step,
        of "[Log ''Conversion cancelled.'', Finished False []]" 0 "get_duration e"
          "cancel_after e" 0 "stderr e"]
    by simp
  then have "sorted (progress_values (fst ?r) @ [100])"
    by (auto simp: sorted_append)
  with b show ?thesis
    by (auto simp: run_progress_values Let_def)
qed

theorem progress_bounded_monotone_witness:
  "get_duration \<lparr>probe = ProbeStdout ''120.0'', pyfloat = py_float_dec, spawn = Spawned,
        stderr = [Line ''time=00:00:30.00'', Line ''time=00:01:00.00'', Line ''time=00:03:00.00''],
        wait = Exit 0, cancel_after = None\<rparr> = Some 120 \<and>
   progress_values (fst (run \<lparr>input_path = ''/v/a.avi'', output_path = ''/v/a.mp4'', cancel = False\<rparr>
       \<lparr>probe = ProbeStdout ''120.0'', pyfloat = py_float_dec, spawn = Spawned,
        stderr = [Line ''time=00:00:30.00'', Line ''time=00:01:00.00'', Line ''time=00:03:00.00''],
        wait = Exit 0, cancel_after = None\<rparr>)) = [25, 50, 100, 100] \<and>
   sorted [25, 50, 100, 100 :: real]"
proof -
  let ?w = "\<lparr>input_path = ''/v/a.avi'', output_path = ''/v/a.mp4'', cancel = False\<rparr>"
  let ?e = "\<lparr>probe = ProbeStdout ''120.0'', pyfloat = py_float_dec, spawn = Spawned,
        stderr = [Line ''time=00:00:30.00'', Line ''time=00:01:00.00'', Line ''time=00:03:00.00''],
        wait = Exit 0, cancel_after = None\<rparr>"
  have d: "get_duration ?e = Some 120"
    by (simp add: run_eval)
  have v: "progress_values (fst (run ?w ?e)) = [25, 50, 100, 100]"
    by (simp add: run_eval)
  have t: "sorted (progress_values (fst (run ?w ?e)))"
    by (rule progress_bounded_monotone[where w="?w" and e="?e", THEN conjunct1])
  show ?thesis using d v t by simp
qed

subsection \<open>Exceptions\<close>

text \<open>
  C6 at a failing input of the mkv worker: \<^verbatim>\<open>Popen\<close> raises an exception other than
  \<^verbatim>\<open>FileNotFoundError\<close> (the configured ffmpeg path is a file without execute permission).
  The exception leaves \<^verbatim>\<open>run\<close> and no \<^verbatim>\<open>finished\<close> is emitted, where the universal and the
  avi worker emit \<^verbatim>\<open>finished(False, "")\<close> (lemma \<open>run_one_outcome\<close>).
\<close>

theorem mkv_start_failure_escapes:
  "run_mkv \<lparr>input_path = ''/v/a.mkv'', output_path = ''/v/a.mp4'', cancel = False\<rparr>
       \<lparr>probe = ProbeStdout ''120.0'', pyfloat = py_float_dec,
        spawn = StartFailed ''[Errno 13] Permission denied'',
        stderr = [], wait = Exit 0, cancel_after = None\<rparr> =
     ([Started], Some ''[Errno 13] Permission denied'')"
  by (simp add: run_eval)

subsection \<open>Unknown duration\<close>

text \<open>
  C10: when the probe gives no duration or gives 0, no worker computes a percent: the only
  percent of a run is the 100 of exit code 0, emitted exactly when the run succeeds. On the
  normal path (process started, flag never set, every read a line, exit code \<open>rc\<close>) the
  universal worker logs every line that is not blank, in order, and ends with the outcome
  of the exit code; no division by zero is attempted, since that would end the run with an
  error.
\<close>

theorem no_duration_no_percent:
  assumes "no_duration (get_duration e)" and "no_duration (get_duration_mkv e)"
  shows "progress_values (fst (run w e)) =
           (if outcomes (fst (run w e)) = [True] then [100] else []) \<and>
         progress_values (fst (run_avi w e)) =
           (if outcomes (fst (run_avi w e)) = [True] then [100] else []) \<and>
         progress_values (fst (run_mkv w e)) =
           (if outcomes (fst (run_mkv w e)) = [True] then [100] else []) \<and>
         (spawn e = Spawned \<and> cancel_after e = None \<and> stderr e = map Line ls \<and> wait e = Exit rc \<longrightarrow>
          run w e =
            ([Started] @
             (if get_duration e = None
              then [Log ''Could not read duration (ffprobe). Progress will be approximate.'']
              else []) @
             plain_events ls @
             (if rc = 0 then [Progress 100, Finished True (output_path w)]
              else [Log (''ffmpeg exited with code '' @ str_int rc), Finished False []]), None))"
proof -
  let ?r = "read_loop (progress_step (get_duration e))
                [Log ''Conversion cancelled.'', Finished False []] (cancel_after e) 0 0 (stderr e)"
  have p: "progress_values (fst ?r) = []"
    by (rule read_loop_silent) (simp_all add: no_duration_step[OF assms(1)])
  have o: "outcomes (fst ?r) = (if snd ?r = Returned then [False] else [])"
    using read_loop_outcomes[OF quiet_progress_step] by simp
  have a: "progress_values (fst (run w e)) =
             (if outcomes (fst (run w e)) = [True] then [100] else [])"
    using p o by (auto simp: run_progress_values run_outcomes Let_def)
  let ?ra = "read_loop (progress_step_avi (get_duration e))
                [Log ''Cancelled.'', Finished False []] (cancel_after e) 0 0 (stderr e)"
  have pa: "progress_values (fst ?ra) = []"
    by (rule read_loop_silent) (simp_all add: no_duration_step[OF assms(1)])
  have oa: "outcomes (fst ?ra) = (if snd ?ra = Returned then [False] else [])"
    using read_loop_outcomes[OF quiet_progress_step_avi] by simp
  have b: "progress_values (fst (run_avi w e)) =
             (if outcomes (fst (run_avi w e)) = [True] then [100] else [])"
    using pa oa by (auto simp: run_avi_progress_values run_avi_outcomes Let_def)
  let ?rm = "read_loop (progress_step_mkv (get_duration_mkv e))
                [Finished False []] (cancel_after e) 0 0 (stderr e)"
  have pm: "progress_values (fst ?rm) = []"
    by (rule read_loop_silent) (simp_all add: no_duration_step[OF assms(2)])
  have om: "outcomes (fst ?rm) = (if snd ?rm = Returned then [False] else [])"
    using read_loop_outcomes[OF quiet_progress_step_mkv] by simp
  have c: "progress_values (fst (run_mkv w e)) =
             (if outcomes (fst (run_mkv w e)) = [True] then [100] else [])"
    using pm om
    by (auto simp: run_mkv_progress_values run_mkv_outcomes Let_def
        split: spawned.splits loop_exit.splits waited.splits)
  have d: "spawn e = Spawned \<and> cancel_after e = None \<and> stderr e = map Line ls \<and> wait e = Exit rc \<longrightarrow>
         run w e =
           ([Started] @
            (if get_duration e = None
             then [Log ''Could not read duration (ffprobe). Progress will be approximate.'']
             else []) @
            plain_events ls @
            (if rc = 0 then [Progress 100, Finished True (output_path w)]
             else [Log (''ffmpeg exited with code '' @ str_int rc), Finished False []]), None)"
    using read_loop_plain[of "progress_step (get_duration e)",
        OF no_duration_step(1)[OF assms(1)]]
    by (simp add: run_def Let_def)
  show ?thesis using a b c d by blast
qed

theorem no_duration_no_percent_witness:
  "no_duration (get_duration \<lparr>probe = ProbeStdout ''0.0'', pyfloat = py_float_dec, spawn = Spawned,
        stderr = map Line [''frame=1 time=00:01:00.00 bitrate=1'', ''  '', ''time=00:02:00.00''],
        wait = Exit 0, cancel_after = None\<rparr>) \<and>
   no_duration (get_duration_mkv \<lparr>probe = ProbeStdout ''0.0'', pyfloat = py_float_dec, spawn = Spawned,
        stderr = map Line [''frame=1 time=00:01:00.00 bitrate=1'', ''  '', ''time=00:02:00.00''],
        wait = Exit 0, cancel_after = None\<rparr>) \<and>
   run \<lparr>input_path = ''/v/a.avi'', output_path = ''/v/a.mp4'', cancel = False\<rparr>
       \<lparr>probe = ProbeStdout ''0.0'', pyfloat = py_float_dec, spawn = Spawned,
        stderr = map Line [''frame=1 time=00:01:00.00 bitrate=1'', ''  '', ''time=00:02:00.00''],
        wait = Exit 0, cancel_after = None\<rparr> =
     ([Started, Log ''frame=1 time=00:01:00.00 bitrate=1'', Log ''time=00:02:00.00'',
       Progress 100, Finished True ''/v/a.mp4''], None)"
proof -
  let ?w = "\<lparr>input_path = ''/v/a.avi'', output_path = ''/v/a.mp4'', cancel = False\<rparr>"
  let ?ls = "[''frame=1 time=00:01:00.00 bitrate=1'', ''  '', ''time=00:02:00.00'']"
  let ?e = "\<lparr>probe = ProbeStdout ''0.0'', pyfloat = py_float_dec, spawn = Spawned,
        stderr = map Line ?ls, wait = Exit 0, cancel_after = None\<rparr>"
  have d: "no_duration (get_duration ?e)"
    by (simp add: run_eval)
  have dm: "no_duration (get_duration_mkv ?e)"
    by (simp add: run_eval)
  have n: "spawn ?e = Spawned \<and> cancel_after ?e = None \<and> stderr ?e = map Line ?ls \<and>
           wait ?e = Exit 0"
    by simp
  have t: "run ?w ?e =
            ([Started] @
             (if get_duration ?e = None
              then [Log ''Could not read duration (ffprobe). Progress will be approximate.'']
              else []) @
             plain_events ?ls @
             (if (0::int) = 0 then [Progress 100, Finished True (output_path ?w)]
              else [Log (''ffmpeg exited with code '' @ str_int 0), Finished False []]), None)"
    using no_duration_no_percent[OF d dm, where w="?w" and ls="?ls" and rc=0] n by blast
  have g: "get_duration ?e = Some 0"
    by (simp add: run_eval)
  have pe: "plain_events ?ls = [Log ''frame=1 time=00:01:00.00 bitrate=1'', Log ''time=00:02:00.00'']"
    by (simp add: run_eval)
  show ?thesis using d dm t g pe by simp
qed

section \<open>Properties of the window\<close>

subsection \<open>Enqueueing\<close>

lemma map_fst_upd: "map fst (upd p f xs) = map fst xs"
  by (induction xs) (auto simp: upd_def)

lemma map_of_None_iff: "(map_of xs k = None) = (k \<notin> fst ` set xs)"
  by (simp add: map_of_eq_None_iff)

lemma add_file_present:
  "map_of (items s) (ap p) \<noteq> None \<Longrightarrow> add_file ap p s = s"
  by (simp add: add_file_def Let_def)

lemma add_file_not_allowed: "\<not> allowed p \<Longrightarrow> add_file ap p s = s"
  by (simp add: add_file_def allowed_def Let_def)

lemma add_file_keys:
  "fst ` set (items (add_file ap p s)) =
     (if allowed p then insert (ap p) (fst ` set (items s)) else fst ` set (items s))"
  by (auto simp: add_file_def allowed_def Let_def map_of_eq_None_iff)

lemma add_file_distinct:
  "distinct (map fst (items s)) \<Longrightarrow> distinct (map fst (items (add_file ap p s)))"
  by (auto simp: add_file_def Let_def map_of_eq_None_iff)

lemma enqueue_all_keys:
  "fst ` set (items (enqueue_all ap ps s)) = fst ` set (items s) \<union> ap ` {p \<in> set ps. allowed p}"
proof (induction ps arbitrary: s)
  case Nil show ?case by (simp add: enqueue_all_def)
next
  case (Cons p ps)
  have "enqueue_all ap (p # ps) s = enqueue_all ap ps (add_file ap p s)"
    by (simp add: enqueue_all_def)
  then show ?case using Cons.IH[of "add_file ap p s"]
    by (auto simp: add_file_keys)
qed

lemma enqueue_all_distinct:
  "distinct (map fst (items s)) \<Longrightarrow> distinct (map fst (items (enqueue_all ap ps s)))"
proof (induction ps arbitrary: s)
  case Nil then show ?case by (simp add: enqueue_all_def)
next
  case (Cons p ps)
  have "enqueue_all ap (p # ps) s = enqueue_all ap ps (add_file ap p s)"
    by (simp add: enqueue_all_def)
  then show ?case using Cons.IH[OF add_file_distinct[OF Cons.prems]] by simp
qed

lemma enqueue_all_noop:
  "\<forall>p \<in> set ps. allowed p \<longrightarrow> ap p \<in> fst ` set (items s) \<Longrightarrow> enqueue_all ap ps s = s"
proof (induction ps)
  case Nil show ?case by (simp add: enqueue_all_def)
next
  case (Cons p ps)
  have "add_file ap p s = s"
  proof (cases "allowed p")
    case True
    with Cons.prems have "ap p \<in> fst ` set (items s)" by simp
    then show ?thesis by (simp add: add_file_present map_of_eq_None_iff)
  next
    case False then show ?thesis by (rule add_file_not_allowed)
  qed
  then have "enqueue_all ap (p # ps) s = enqueue_all ap ps s"
    by (simp add: enqueue_all_def)
  with Cons show ?case by simp
qed

lemma enqueue_all_append: "enqueue_all ap (ps @ qs) s = enqueue_all ap qs (enqueue_all ap ps s)"
  by (simp add: enqueue_all_def)

lemma scan_files_enqueue:
  "scan_files ap d files s = enqueue_all ap (map (path_join d) (filter allowed files)) s"
  unfolding scan_files_def enqueue_all_def
  by (induction files arbitrary: s) (auto simp: allowed_def)

lemma scan_tree_enqueue:
  "foldl (\<lambda>s' (d, files). scan_files ap d files s') s tree = enqueue_all ap (scan_paths tree) s"
proof (induction tree arbitrary: s)
  case Nil show ?case by (simp add: scan_paths_def enqueue_all_def)
next
  case (Cons a tree)
  obtain d files where a: "a = (d, files)" by (cases a)
  show ?case using Cons.IH[of "scan_files ap d files s"]
    by (simp add: a scan_paths_def scan_files_enqueue enqueue_all_append)
qed

lemma watch_folder_items: "items (watch_folder f s) = items s"
  by (simp add: watch_folder_def)

lemma scan_folder_items:
  "items (scan_folder ap tree folder s) = items (enqueue_all ap (scan_paths tree) s)"
  by (simp add: scan_folder_def Let_def scan_tree_enqueue watch_folder_items)

lemma jobs_at_distinct:
  "distinct (map fst xs) \<Longrightarrow> length (filter (\<lambda>(k, m). k = p) xs) = (if p \<in> fst ` set xs then 1 else 0)"
  by (induction xs) (auto simp: rev_image_eqI)

lemma add_file_chk: "chk_watch (add_file ap p s) = chk_watch s"
  by (simp add: add_file_def Let_def)

lemma enqueue_all_chk: "chk_watch (enqueue_all ap ps s) = chk_watch s"
  unfolding enqueue_all_def
  by (induction ps arbitrary: s) (simp_all add: add_file_chk)

lemma watch_folder_idem: "watch_folder f (watch_folder f s) = watch_folder f s"
  by (simp add: watch_folder_def)

lemma scan_folder_alt:
  "scan_folder ap tree folder s =
     (let s' = enqueue_all ap (scan_paths tree) s in
      if chk_watch s then watch_folder folder s' else s')"
  by (simp add: scan_folder_def Let_def scan_tree_enqueue enqueue_all_chk)

lemma rescan_noop:
  "scan_folder ap tree folder (scan_folder ap tree folder s) = scan_folder ap tree folder s"
proof -
  let ?s' = "enqueue_all ap (scan_paths tree) s"
  have k: "\<forall>p \<in> set (scan_paths tree). allowed p \<longrightarrow> ap p \<in> fst ` set (items ?s')"
    by (auto simp: enqueue_all_keys)
  have a: "enqueue_all ap (scan_paths tree) ?s' = ?s'"
    by (rule enqueue_all_noop[OF k])
  have b: "enqueue_all ap (scan_paths tree) (watch_folder folder ?s') = watch_folder folder ?s'"
    by (rule enqueue_all_noop) (use k in \<open>simp add: watch_folder_items\<close>)
  have c: "chk_watch (watch_folder folder ?s') = chk_watch s"
    by (simp add: watch_folder_def enqueue_all_chk)
  show ?thesis
    by (simp add: scan_folder_alt Let_def a b c enqueue_all_chk watch_folder_idem)
qed

lemma add_file_suffix_idem:
  "add_file_suffix suf ap p (add_file_suffix suf ap p s) = add_file_suffix suf ap p s"
  by (simp add: add_file_suffix_def Let_def)

text \<open>
  C3: enqueueing a path a second time, after any sequence of other enqueues, leaves the
  window unchanged; the registry then holds at most one job for its normalised path, and
  exactly one when its extension is allowed. A path whose extension is not allowed changes
  nothing. A rescan of a directory, as the watcher's notification does it, changes nothing
  after the first scan, and the mkv converter's \<^verbatim>\<open>add_file\<close> is idempotent as well.
\<close>

theorem enqueue_idempotent:
  assumes "distinct (map fst (items s))"
  shows "add_file ap p (enqueue_all ap qs (add_file ap p s)) = enqueue_all ap qs (add_file ap p s) \<and>
         jobs_at (ap p) (enqueue_all ap qs (add_file ap p s)) \<le> 1 \<and>
         (allowed p \<longrightarrow> jobs_at (ap p) (enqueue_all ap qs (add_file ap p s)) = 1) \<and>
         (\<not> allowed p \<longrightarrow> add_file ap p s = s) \<and>
         on_folder_changed ap tree folder (scan_folder ap tree folder s) = scan_folder ap tree folder s \<and>
         add_file_mkv ap p (add_file_mkv ap p s) = add_file_mkv ap p s"
proof -
  let ?t = "enqueue_all ap qs (add_file ap p s)"
  have d: "distinct (map fst (items ?t))"
    by (rule enqueue_all_distinct[OF add_file_distinct[OF assms]])
  have k: "allowed p \<Longrightarrow> ap p \<in> fst ` set (items ?t)"
    by (simp add: enqueue_all_keys add_file_keys)
  have 1: "add_file ap p ?t = ?t"
  proof (cases "allowed p")
    case True
    then show ?thesis using k by (simp add: add_file_present map_of_eq_None_iff)
  next
    case False
    then show ?thesis by (rule add_file_not_allowed)
  qed
  have j: "jobs_at (ap p) ?t = (if ap p \<in> fst ` set (items ?t) then 1 else 0)"
    unfolding jobs_at_def by (rule jobs_at_distinct[OF d])
  have 2: "jobs_at (ap p) ?t \<le> 1" using j by simp
  have 3: "allowed p \<longrightarrow> jobs_at (ap p) ?t = 1" using j k by simp
  have 4: "\<not> allowed p \<longrightarrow> add_file ap p s = s" by (simp add: add_file_not_allowed)
  have 5: "on_folder_changed ap tree folder (scan_folder ap tree folder s) = scan_folder ap tree folder s"
    by (simp add: on_folder_changed_def rescan_noop)
  have 6: "add_file_mkv ap p (add_file_mkv ap p s) = add_file_mkv ap p s"
    by (simp add: add_file_mkv_def add_file_suffix_idem)
  show ?thesis using 1 2 3 4 5 6 by blast
qed

lemmas win_eval = init_window_def add_file_def add_file_suffix_def add_file_mkv_def enqueue_all_def splitext_def rfind_def lower_def lower_char_def
  INPUT_EXTS_def allowed_def jobs_at_def Let_def path_join_def endswith_def scan_folder_def scan_files_def on_folder_changed_def watch_folder_def
  toggle_watch_def update_watch_def start_all_def start_conversion_def eligible_def upd_def set_threads_def start_all_avi_def
  on_progress_def on_finished_def py_trunc_def stop_all_def remove_item_def cancel_item_def remove_item_mkv_def cancel_item_mkv_def kill_def
  refresh_overall_def update_overall_def running_count_def eligible_count_def contribution_def mean_percent_def every_path_exists_def job_states_def

theorem enqueue_idempotent_witness:
  "distinct (map fst (items (init_window 2))) \<and> allowed ''/v/a.AVI'' \<and>
   items (add_file id ''/v/a.AVI'' (enqueue_all id [''/v/b.mkv'', ''/v/a.AVI'', ''/v/notes.txt''] (add_file id ''/v/a.AVI'' (init_window 2)))) =
     [(''/v/a.AVI'', \<lparr>dst = ''/v/a.mp4'', bar = 0, job_worker = None, status = Queued\<rparr>),
      (''/v/b.mkv'', \<lparr>dst = ''/v/b.mp4'', bar = 0, job_worker = None, status = Queued\<rparr>)] \<and>
   jobs_at (id ''/v/a.AVI'') (enqueue_all id [''/v/b.mkv'', ''/v/a.AVI'', ''/v/notes.txt''] (add_file id ''/v/a.AVI'' (init_window 2))) = 1"
proof -
  let ?s = "init_window 2"
  let ?qs = "[''/v/b.mkv'', ''/v/a.AVI'', ''/v/notes.txt'']"
  have d: "distinct (map fst (items ?s))" by (simp add: init_window_def)
  have a: "allowed ''/v/a.AVI''" by (simp add: win_eval)
  have v: "items (enqueue_all id ?qs (add_file id ''/v/a.AVI'' ?s)) =
     [(''/v/a.AVI'', \<lparr>dst = ''/v/a.mp4'', bar = 0, job_worker = None, status = Queued\<rparr>),
      (''/v/b.mkv'', \<lparr>dst = ''/v/b.mp4'', bar = 0, job_worker = None, status = Queued\<rparr>)]"
    by (simp add: win_eval)
  note t = enqueue_idempotent[OF d, where ap=id and p="''/v/a.AVI''" and qs="?qs"]
  have t1: "add_file id ''/v/a.AVI'' (enqueue_all id ?qs (add_file id ''/v/a.AVI'' ?s)) = enqueue_all id ?qs (add_file id ''/v/a.AVI'' ?s)"
    using t by (rule conjunct1)
  have t3: "jobs_at (id ''/v/a.AVI'') (enqueue_all id ?qs (add_file id ''/v/a.AVI'' ?s)) = 1"
    using t a by blast
  show ?thesis using d a v t1 t3 by simp
qed

subsection \<open>Dispatch\<close>

lemma upd_set:
  "set (upd p f xs) = (\<lambda>(k, m). if k = p then (k, f m) else (k, m)) ` set xs"
  by (simp add: upd_def)

lemma start_conversion_items:
  "p \<in> fst ` set (items s) \<Longrightarrow>
   map (\<lambda>(k, m). (k, status m)) (items (start_conversion p s)) =
   map (\<lambda>(k, m). (k, if k = p then Running else status m)) (items s)"
  by (auto simp: start_conversion_def upd_def map_of_eq_None_iff Let_def split: option.splits)

lemma start_conversion_keys: "map fst (items (start_conversion p s)) = map fst (items s)"
  by (simp add: start_conversion_def map_fst_upd Let_def split: option.splits)

lemma start_conversion_submitted:
  "p \<in> fst ` set (items s) \<Longrightarrow> submitted (start_conversion p s) = submitted s @ [p]"
  by (auto simp: start_conversion_def map_of_eq_None_iff Let_def split: option.splits)

lemma start_conversion_max: "max_thread_count (start_conversion p s) = max_thread_count s"
  by (simp add: start_conversion_def Let_def split: option.splits)

lemma fold_start:
  "set q \<subseteq> fst ` set (items s) \<Longrightarrow>
   map (\<lambda>(k, m). (k, status m)) (items (foldl (\<lambda>s' p. start_conversion p s') s q)) =
     map (\<lambda>(k, m). (k, if k \<in> set q then Running else status m)) (items s) \<and>
   submitted (foldl (\<lambda>s' p. start_conversion p s') s q) = submitted s @ q \<and>
   max_thread_count (foldl (\<lambda>s' p. start_conversion p s') s q) = max_thread_count s"
proof (induction q arbitrary: s)
  case Nil
  show ?case by (simp add: split_def)
next
  case (Cons p q)
  have p: "p \<in> fst ` set (items s)" using Cons.prems by simp
  have k: "set q \<subseteq> fst ` set (items (start_conversion p s))"
    using Cons.prems start_conversion_keys[of p s]
    by (metis (no_types, lifting) list.set_map set_subset_Cons subset_trans)
  have st: "map (\<lambda>(k, m). (k, status m)) (items (start_conversion p s)) =
   map (\<lambda>(k, m). (k, if k = p then Running else status m)) (items s)"
    by (rule start_conversion_items[OF p])
  have "map (\<lambda>(k, m). (k, if k \<in> set q then Running else status m)) (items (start_conversion p s))
      = map (\<lambda>(k, st). (k, if k \<in> set q then Running else st)) (map (\<lambda>(k, m). (k, status m)) (items (start_conversion p s)))"
    by (simp add: split_def)
  also have "\<dots> = map (\<lambda>(k, m). (k, if k \<in> set (p # q) then Running else status m)) (items s)"
    unfolding st by (auto simp: split_def)
  finally show ?case
    using Cons.IH[OF k] start_conversion_submitted[OF p] start_conversion_max[of p s]
    by simp
qed

lemma count_split:
  "\<forall>x \<in> set xs. \<not> (P x \<and> Q x) \<Longrightarrow>
   length (filter (\<lambda>x. P x \<or> Q x) xs) = length (filter P xs) + length (filter Q xs)"
  by (induction xs) auto

lemma count_mark:
  "length (filter (\<lambda>(k, st). st = Running)
     (map (\<lambda>(k, m). (k, if k \<in> Q then Running else status m)) xs)) =
   length (filter (\<lambda>(k, m). k \<in> Q \<or> status m = Running) xs)"
  by (induction xs) (auto split: if_splits)

lemma running_count_status:
  "running_count s = length (filter (\<lambda>(k, st). st = Running) (map (\<lambda>(k, m). (k, status m)) (items s)))"
  by (simp add: running_count_def filter_map o_def split_def)

lemma start_all_core:
  assumes "distinct (map fst (items s))"
  shows "running_count (start_all s) = running_count s + eligible_count s \<and>
         submitted (start_all s) = submitted s @ map fst (filter (\<lambda>(p, m). eligible m) (items s)) \<and>
         max_thread_count (start_all s) = max_thread_count s"
proof -
  let ?q = "map fst (filter (\<lambda>(p, m). eligible m) (items s))"
  have sub: "set ?q \<subseteq> fst ` set (items s)" by auto
  define Q where "Q = set ?q"
  have el: "(k \<in> Q) = eligible m" if km: "(k, m) \<in> set (items s)" for k m
  proof
    assume "k \<in> Q"
    then obtain m' where m': "(k, m') \<in> set (items s)" "eligible m'"
      unfolding Q_def by auto
    with assms km have "m = m'" by (meson eq_key_imp_eq_value)
    with m' show "eligible m" by simp
  next
    assume "eligible m"
    with km show "k \<in> Q" unfolding Q_def by force
  qed
  have gen: "running_count (foldl (\<lambda>s' p. start_conversion p s') s ?q) =
               running_count s + eligible_count s"
  proof -
    have "running_count (foldl (\<lambda>s' p. start_conversion p s') s ?q) =
          length (filter (\<lambda>(k, st). st = Running)
            (map (\<lambda>(k, m). (k, if k \<in> Q then Running else status m)) (items s)))"
      using fold_start[OF sub] unfolding Q_def by (simp add: running_count_status)
    also have "\<dots> = length (filter (\<lambda>(k, m). k \<in> Q \<or> status m = Running) (items s))"
      by (rule count_mark)
    also have "\<dots> = length (filter (\<lambda>(k, m). eligible m \<or> status m = Running) (items s))"
      by (rule arg_cong[where f=length], rule filter_cong) (auto simp: el)
    also have "\<dots> = length (filter (\<lambda>x. (case x of (k, m) \<Rightarrow> eligible m) \<or> (case x of (k, m) \<Rightarrow> status m = Running)) (items s))"
      by (simp add: split_def)
    also have "\<dots> = eligible_count s + running_count s"
      unfolding eligible_count_def running_count_def
      by (rule count_split) (auto simp: eligible_def)
    finally show ?thesis by simp
  qed
  have e0: "?q = [] \<Longrightarrow> eligible_count s = 0"
    by (simp add: eligible_count_def)
  have 1: "running_count (start_all s) = running_count s + eligible_count s"
    using gen e0 by (simp add: start_all_def Let_def)
  have 2: "submitted (start_all s) = submitted s @ ?q"
    using fold_start[OF sub] by (simp add: start_all_def Let_def)
  have 3: "max_thread_count (start_all s) = max_thread_count s"
    using fold_start[OF sub] by (simp add: start_all_def Let_def)
  show ?thesis using 1 2 3 by simp
qed

text \<open>
  C2, amended: \<^verbatim>\<open>start_all\<close> marks every queued or failed job running and hands one worker
  per such job to the pool, in registry order, whatever the capacity is: the number of
  running jobs grows by the number of eligible jobs, and the capacity stays as it was (in
  the avi converter it becomes the spin box value). How many workers execute at once is
  left to the thread pool.
\<close>

theorem start_all_marks_every_eligible_job:
  assumes "distinct (map fst (items s))"
  shows "running_count (start_all s) = running_count s + eligible_count s \<and>
         submitted (start_all s) = submitted s @ map fst (filter (\<lambda>(p, m). eligible m) (items s)) \<and>
         max_thread_count (start_all s) = max_thread_count s \<and>
         running_count (start_all_avi spin s) = running_count s + eligible_count s \<and>
         max_thread_count (start_all_avi spin s) = spin"
proof -
  have d': "distinct (map fst (items (set_threads spin s)))"
    using assms by (simp add: set_threads_def)
  have a: "running_count (start_all_avi spin s) =
             running_count (set_threads spin s) + eligible_count (set_threads spin s)"
    using start_all_core[OF d'] by (simp add: start_all_avi_def)
  have b: "max_thread_count (start_all_avi spin s) = max_thread_count (set_threads spin s)"
    using start_all_core[OF d'] by (simp add: start_all_avi_def)
  have c: "running_count (set_threads spin s) = running_count s"
          "eligible_count (set_threads spin s) = eligible_count s"
          "max_thread_count (set_threads spin s) = spin"
    by (simp_all add: set_threads_def running_count_def eligible_count_def)
  show ?thesis using start_all_core[OF assms] a b c by simp
qed

subsection \<open>The registry in every execution\<close>

lemma registry_ok_items: "items s' = items s \<Longrightarrow> registry_ok s' = registry_ok s"
  by (simp add: registry_ok_def)

lemma registry_ok_upd:
  assumes "registry_ok s" and "\<And>m. (p, m) \<in> set (items s) \<Longrightarrow> meta_ok (f m)"
  shows "registry_ok (s\<lparr>items := upd p f (items s)\<rparr>)"
proof -
  have d: "distinct (map fst (upd p f (items s)))"
    using assms(1) by (simp add: map_fst_upd registry_ok_def)
  have "\<forall>x \<in> set (upd p f (items s)). case x of (k, m) \<Rightarrow> meta_ok m"
    using assms by (auto simp: upd_def registry_ok_def list_all_iff split: if_splits)
  then show ?thesis using d by (simp add: registry_ok_def list_all_iff)
qed

lemma registry_ok_add_file: "registry_ok s \<Longrightarrow> registry_ok (add_file ap p s)"
  by (auto simp: registry_ok_def add_file_def Let_def map_of_eq_None_iff meta_ok_def)

lemma registry_ok_enqueue_all: "registry_ok s \<Longrightarrow> registry_ok (enqueue_all ap ps s)"
  unfolding enqueue_all_def
  by (induction ps arbitrary: s) (simp_all add: registry_ok_add_file)

lemma registry_ok_scan_folder: "registry_ok s \<Longrightarrow> registry_ok (scan_folder ap tree folder s)"
  using registry_ok_enqueue_all[of s ap "scan_paths tree"]
  by (simp add: registry_ok_def scan_folder_items)

lemma registry_ok_start_conversion: "registry_ok s \<Longrightarrow> registry_ok (start_conversion p s)"
proof (cases "map_of (items s) p")
  case None
  assume "registry_ok s"
  with None show ?thesis by (simp add: start_conversion_def)
next
  case (Some m)
  assume ok: "registry_ok s"
  let ?w = "\<lparr>input_path = p, output_path = dst m, cancel = False\<rparr>"
  have "registry_ok (s\<lparr>items := upd p (\<lambda>m. m\<lparr>job_worker := Some ?w, status := Running\<rparr>) (items s)\<rparr>)"
    by (rule registry_ok_upd[OF ok]) (simp add: meta_ok_def)
  then show ?thesis
    using Some by (simp add: start_conversion_def Let_def registry_ok_def)
qed

lemma registry_ok_start_all: "registry_ok s \<Longrightarrow> registry_ok (start_all s)"
proof -
  have f: "registry_ok s \<Longrightarrow> registry_ok (foldl (\<lambda>s' p. start_conversion p s') s q)" for q s
    by (induction q arbitrary: s) (simp_all add: registry_ok_start_conversion)
  assume "registry_ok s"
  then show ?thesis using f by (simp add: start_all_def Let_def)
qed

lemma entry_unique:
  "registry_ok s \<Longrightarrow> map_of (items s) p = Some m \<Longrightarrow> (p, m') \<in> set (items s) \<Longrightarrow> m' = m"
  by (simp add: registry_ok_def)

lemma entry_ok:
  "registry_ok s \<Longrightarrow> map_of (items s) p = Some m \<Longrightarrow> meta_ok m"
  by (auto simp: registry_ok_def list_all_iff dest: map_of_SomeD)

lemma registry_ok_on_progress:
  assumes "registry_ok s" "map_of (items s) src = Some m" "job_worker m \<noteq> None"
  shows "registry_ok (on_progress src percent s)"
proof -
  have r: "status m = Running" using entry_ok[OF assms(1,2)] assms(3) by (auto simp: meta_ok_def)
  have "registry_ok (s\<lparr>items := upd src (\<lambda>m. m\<lparr>bar := py_trunc percent\<rparr>) (items s)\<rparr>)"
  proof (rule registry_ok_upd[OF assms(1)])
    fix m' assume "(src, m') \<in> set (items s)"
    then have "m' = m" by (rule entry_unique[OF assms(1,2)])
    then show "meta_ok (m'\<lparr>bar := py_trunc percent\<rparr>)"
      using entry_ok[OF assms(1,2)] r by (simp add: meta_ok_def)
  qed
  then show ?thesis using assms(2) by (simp add: on_progress_def)
qed

lemma registry_ok_on_finished:
  assumes "registry_ok s"
  shows "registry_ok (on_finished src ok s)"
proof (cases "map_of (items s) src")
  case None
  then show ?thesis using assms by (simp add: on_finished_def)
next
  case (Some m)
  have "registry_ok (s\<lparr>items := upd src
               (\<lambda>m. m\<lparr>status := (if ok then Done else Failed), job_worker := None,
                      bar := (if ok then 100 else bar m)\<rparr>) (items s)\<rparr>)"
    by (rule registry_ok_upd[OF assms]) (simp add: meta_ok_def)
  then show ?thesis using Some by (simp add: on_finished_def)
qed

lemma registry_ok_stop_all: "registry_ok s \<Longrightarrow> registry_ok (stop_all s)"
  by (auto simp: registry_ok_def stop_all_def list_all_iff meta_ok_def kill_def o_def split_def
      split: option.splits)

lemma registry_ok_remove_item: "registry_ok s \<Longrightarrow> registry_ok (remove_item src s)"
  by (auto simp: registry_ok_def remove_item_def list_all_iff distinct_map_filter)

lemma registry_ok_cancel_item:
  assumes "registry_ok s"
  shows "registry_ok (cancel_item src s)"
proof (cases "map_of (items s) src")
  case None
  then show ?thesis using assms by (simp add: cancel_item_def)
next
  case (Some m)
  show ?thesis
  proof (cases "job_worker m")
    case None
    then show ?thesis using Some assms by (simp add: cancel_item_def registry_ok_remove_item)
  next
    case (Some w)
    have "registry_ok (s\<lparr>items := upd src (\<lambda>m. m\<lparr>job_worker := Some (kill w)\<rparr>) (items s)\<rparr>)"
    proof (rule registry_ok_upd[OF assms])
      fix m' assume "(src, m') \<in> set (items s)"
      then have "m' = m" by (rule entry_unique[OF assms \<open>map_of (items s) src = Some m\<close>])
      then show "meta_ok (m'\<lparr>job_worker := Some (kill w)\<rparr>)"
        using entry_ok[OF assms \<open>map_of (items s) src = Some m\<close>] Some by (simp add: meta_ok_def)
    qed
    then show ?thesis using Some \<open>map_of (items s) src = Some m\<close> by (simp add: cancel_item_def)
  qed
qed

lemma reachable_registry_ok: "reachable s \<Longrightarrow> registry_ok s"
proof (induction rule: reachable.induct)
  case (r_init n)
  show ?case by (simp add: registry_ok_def init_window_def)
next
  case (r_toggle_watch s state)
  then show ?case by (simp add: registry_ok_def toggle_watch_def Let_def)
next
  case (r_set_threads s n)
  then show ?case by (simp add: registry_ok_def set_threads_def)
qed (simp_all add: registry_ok_add_file registry_ok_scan_folder on_folder_changed_def
      registry_ok_start_all registry_ok_on_progress registry_ok_on_finished registry_ok_stop_all
      registry_ok_cancel_item)

subsection \<open>Aggregate, removal and watch\<close>

lemma bar_is_contribution: "meta_ok m \<Longrightarrow> contribution m = bar m"
  by (cases "status m") (auto simp: meta_ok_def contribution_def)

text \<open>
  C9: in every execution, for a registry that is not empty, the average that
  \<^verbatim>\<open>_refresh_overall\<close> (and \<^verbatim>\<open>update_overall\<close>) reports is the equal-weight mean over the
  jobs of: 0 for a queued job, 100 for a done job, and for a running or failed job the
  percent its progress bar last recorded (\<^verbatim>\<open>set_progress\<close> records \<^verbatim>\<open>int(p)\<close>).
\<close>

theorem overall_is_equal_weight_mean:
  assumes "reachable s" and "items s \<noteq> []"
  shows "ov_avg (refresh_overall s) = Some (mean_percent s) \<and>
         ov_avg (update_overall s) = Some (mean_percent s) \<and>
         ov_total (refresh_overall s) = length (items s) \<and>
         ov_done (refresh_overall s) = length (filter (\<lambda>(p, m). status m = Done) (items s))"
proof -
  have ok: "registry_ok s" by (rule reachable_registry_ok[OF assms(1)])
  have eq: "map (\<lambda>(p, m). contribution m) (items s) = map (\<lambda>(p, m). bar m) (items s)"
    using ok by (auto simp: registry_ok_def list_all_iff bar_is_contribution)
  have m: "mean_percent s =
      real_of_int (sum_list (map (\<lambda>(p, m). bar m) (items s))) / real (length (items s))"
    unfolding mean_percent_def eq by (rule refl)
  show ?thesis using assms(2) m
    by (simp add: refresh_overall_def update_overall_def Let_def)
qed

lemma map_of_upd:
  "map_of xs p = Some m \<Longrightarrow> map_of (upd p f xs) p = Some (f m)"
  by (induction xs) (auto simp: upd_def split: if_splits)

lemma map_of_filter_out: "map_of (filter (\<lambda>(k, m). k \<noteq> p) xs) p = None"
  by (induction xs) auto

text \<open>
  C8, amended: in every execution, the per-item cancel action on a job removes it from the
  registry exactly when the job has no active worker, that is when it is Queued, Done or
  Failed; on a Running job it removes nothing and sets the cancel flag of its worker. The
  mkv converter does the same for a job that is in the registry.
\<close>

theorem cancel_item_removes_idle_jobs:
  assumes "reachable s" and "map_of (items s) src = Some m"
  shows "(status m = Running \<longrightarrow>
            map fst (items (cancel_item src s)) = map fst (items s) \<and>
            (\<exists>w. job_worker m = Some w \<and>
                 map_of (items (cancel_item src s)) src = Some (m\<lparr>job_worker := Some (kill w)\<rparr>))) \<and>
         (status m \<noteq> Running \<longrightarrow>
            map_of (items (cancel_item src s)) src = None \<and>
            items (cancel_item src s) = filter (\<lambda>(k, m). k \<noteq> src) (items s)) \<and>
         cancel_item_mkv src s = Some (cancel_item src s)"
proof -
  have ok: "meta_ok m" by (rule entry_ok[OF reachable_registry_ok[OF assms(1)] assms(2)])
  show ?thesis
  proof (cases "job_worker m")
    case None
    then have "status m \<noteq> Running" using ok by (simp add: meta_ok_def)
    then show ?thesis using None assms(2)
      by (simp add: cancel_item_def cancel_item_mkv_def remove_item_def remove_item_mkv_def
          map_of_filter_out)
  next
    case (Some w)
    then have "status m = Running" using ok by (auto simp: meta_ok_def)
    then show ?thesis using Some assms(2)
      by (simp add: cancel_item_def cancel_item_mkv_def map_fst_upd map_of_upd)
  qed
qed

text \<open>
  C2, as stated, fails: with capacity 2 and three queued jobs, \<^verbatim>\<open>start_all\<close> leaves three
  jobs in the state running.
\<close>

theorem start_all_exceeds_capacity:
  "running_count (start_all (add_file id ''/v/c.avi'' (add_file id ''/v/b.avi''
      (add_file id ''/v/a.avi'' (init_window 2))))) = 3 \<and>
   max_thread_count (start_all (add_file id ''/v/c.avi'' (add_file id ''/v/b.avi''
      (add_file id ''/v/a.avi'' (init_window 2))))) = 2"
  by (simp add: win_eval)

text \<open>
  C8, as stated, fails: the cancel action on a Done job and on a Failed job, neither of
  which has a worker, removes both from the registry.
\<close>

theorem finished_jobs_are_removed:
  "job_states (on_finished ''/v/b.avi'' False (on_finished ''/v/a.avi'' True
      (start_all (add_file id ''/v/b.avi'' (add_file id ''/v/a.avi'' (init_window 2)))))) =
     [(''/v/a.avi'', Done), (''/v/b.avi'', Failed)] \<and>
   items (cancel_item ''/v/b.avi'' (cancel_item ''/v/a.avi''
     (on_finished ''/v/b.avi'' False (on_finished ''/v/a.avi'' True
      (start_all (add_file id ''/v/b.avi'' (add_file id ''/v/a.avi'' (init_window 2)))))))) = []"
  by (simp add: win_eval)

text \<open>
  C7, as stated, fails: watch is enabled and \<^verbatim>\<open>/videos\<close> is scanned, so it is tracked and
  attached. Disabling watch detaches it and clears the tracked set as well; enabling watch
  again attaches nothing, in the universal and mkv converters (\<^verbatim>\<open>_toggle_watch\<close>) as in
  the avi converter, whose \<^verbatim>\<open>update_watch\<close> re-attaches the tracked directories on enable
  and finds none.
\<close>

theorem disabling_watch_forgets_directories:
  "watched (scan_folder id [(''/videos'', [''a.avi''])] ''/videos'' (toggle_watch 2 (init_window 4))) =
     {''/videos''} \<and>
   watcher_dirs (scan_folder id [(''/videos'', [''a.avi''])] ''/videos'' (toggle_watch 2 (init_window 4))) =
     {''/videos''} \<and>
   watched (toggle_watch 2 (toggle_watch 0
     (scan_folder id [(''/videos'', [''a.avi''])] ''/videos'' (toggle_watch 2 (init_window 4))))) = {} \<and>
   watcher_dirs (toggle_watch 2 (toggle_watch 0
     (scan_folder id [(''/videos'', [''a.avi''])] ''/videos'' (toggle_watch 2 (init_window 4))))) = {} \<and>
   watched (update_watch every_path_exists 2 (update_watch every_path_exists 0
     (scan_folder id [(''/videos'', [''a.avi''])] ''/videos'' (toggle_watch 2 (init_window 4))))) = {} \<and>
   watcher_dirs (update_watch every_path_exists 2 (update_watch every_path_exists 0
     (scan_folder id [(''/videos'', [''a.avi''])] ''/videos'' (toggle_watch 2 (init_window 4))))) = {}"
  by (simp add: win_eval)

theorem start_all_marks_every_eligible_job_witness:
  "distinct (map fst (items (add_file id ''/v/c.avi'' (add_file id ''/v/b.avi''
      (add_file id ''/v/a.avi'' (init_window 2)))))) \<and>
   eligible_count (add_file id ''/v/c.avi'' (add_file id ''/v/b.avi''
      (add_file id ''/v/a.avi'' (init_window 2)))) = 3 \<and>
   running_count (start_all (add_file id ''/v/c.avi'' (add_file id ''/v/b.avi''
      (add_file id ''/v/a.avi'' (init_window 2))))) = 3 \<and>
   submitted (start_all (add_file id ''/v/c.avi'' (add_file id ''/v/b.avi''
      (add_file id ''/v/a.avi'' (init_window 2))))) = [''/v/a.avi'', ''/v/b.avi'', ''/v/c.avi'']"
proof -
  let ?s = "add_file id ''/v/c.avi'' (add_file id ''/v/b.avi'' (add_file id ''/v/a.avi'' (init_window 2)))"
  have d: "distinct (map fst (items ?s))" by (simp add: win_eval)
  have e: "eligible_count ?s = 3" by (simp add: win_eval)
  have r: "running_count ?s = 0" by (simp add: win_eval)
  have q: "submitted ?s @ map fst (filter (\<lambda>(p, m). eligible m) (items ?s)) =
             [''/v/a.avi'', ''/v/b.avi'', ''/v/c.avi'']"
    by (simp add: win_eval)
  note t = start_all_marks_every_eligible_job[OF d, of 2]
  have t1: "running_count (start_all ?s) = running_count ?s + eligible_count ?s"
    using t by (rule conjunct1)
  have t2: "submitted (start_all ?s) = submitted ?s @ map fst (filter (\<lambda>(p, m). eligible m) (items ?s))"
    using t by blast
  show ?thesis using d e r q t1 t2 by simp
qed

theorem overall_is_equal_weight_mean_witness:
  "reachable (add_file id ''/v/c.avi'' (on_progress ''/v/b.avi'' (101/2)
     (on_finished ''/v/a.avi'' True
       (start_all (add_file id ''/v/b.avi'' (add_file id ''/v/a.avi'' (init_window 2))))))) \<and>
   job_states (add_file id ''/v/c.avi'' (on_progress ''/v/b.avi'' (101/2)
     (on_finished ''/v/a.avi'' True
       (start_all (add_file id ''/v/b.avi'' (add_file id ''/v/a.avi'' (init_window 2))))))) =
     [(''/v/a.avi'', Done), (''/v/b.avi'', Running), (''/v/c.avi'', Queued)] \<and>
   ov_avg (refresh_overall (add_file id ''/v/c.avi'' (on_progress ''/v/b.avi'' (101/2)
     (on_finished ''/v/a.avi'' True
       (start_all (add_file id ''/v/b.avi'' (add_file id ''/v/a.avi'' (init_window 2)))))))) =
     Some 50 \<and>
   mean_percent (add_file id ''/v/c.avi'' (on_progress ''/v/b.avi'' (101/2)
     (on_finished ''/v/a.avi'' True
       (start_all (add_file id ''/v/b.avi'' (add_file id ''/v/a.avi'' (init_window 2))))))) = 50"
proof -
  let ?base = "start_all (add_file id ''/v/b.avi'' (add_file id ''/v/a.avi'' (init_window 2)))"
  let ?s = "add_file id ''/v/c.avi'' (on_progress ''/v/b.avi'' (101/2)
     (on_finished ''/v/a.avi'' True ?base))"
  have r0: "reachable ?base"
    by (intro r_start_all r_add_file r_init)
  have r1: "reachable (on_finished ''/v/a.avi'' True ?base)"
    apply (rule r_finished[OF r0])
     apply (simp add: win_eval)
    apply (simp add: win_eval)
    done
  have r2: "reachable (on_progress ''/v/b.avi'' (101/2) (on_finished ''/v/a.avi'' True ?base))"
    apply (rule r_progress[OF r1])
     apply (simp add: win_eval)
    apply (simp add: win_eval)
    done
  have r: "reachable ?s"
    by (rule r_add_file[OF r2])
  have n: "items ?s \<noteq> []"
    by (simp add: win_eval)
  have j: "job_states ?s = [(''/v/a.avi'', Done), (''/v/b.avi'', Running), (''/v/c.avi'', Queued)]"
    by (simp add: win_eval)
  have v: "ov_avg (refresh_overall ?s) = Some 50"
    by (simp add: win_eval)
  have t: "ov_avg (refresh_overall ?s) = Some (mean_percent ?s)"
    by (rule overall_is_equal_weight_mean[OF r n, THEN conjunct1])
  show ?thesis using r j v t by simp
qed

theorem cancel_item_removes_idle_jobs_witness:
  "reachable (on_finished ''/v/b.avi'' False (on_finished ''/v/a.avi'' True
     (start_all (add_file id ''/v/c.avi'' (add_file id ''/v/b.avi''
        (add_file id ''/v/a.avi'' (init_window 2))))))) \<and>
   job_states (on_finished ''/v/b.avi'' False (on_finished ''/v/a.avi'' True
     (start_all (add_file id ''/v/c.avi'' (add_file id ''/v/b.avi''
        (add_file id ''/v/a.avi'' (init_window 2))))))) =
     [(''/v/a.avi'', Done), (''/v/b.avi'', Failed), (''/v/c.avi'', Running)] \<and>
   map_of (items (cancel_item ''/v/b.avi'' (on_finished ''/v/b.avi'' False
     (on_finished ''/v/a.avi'' True
       (start_all (add_file id ''/v/c.avi'' (add_file id ''/v/b.avi''
          (add_file id ''/v/a.avi'' (init_window 2))))))))) ''/v/b.avi'' = None \<and>
   map fst (items (cancel_item ''/v/c.avi'' (on_finished ''/v/b.avi'' False
     (on_finished ''/v/a.avi'' True
       (start_all (add_file id ''/v/c.avi'' (add_file id ''/v/b.avi''
          (add_file id ''/v/a.avi'' (init_window 2))))))))) =
     [''/v/a.avi'', ''/v/b.avi'', ''/v/c.avi'']"
proof -
  let ?base = "start_all (add_file id ''/v/c.avi'' (add_file id ''/v/b.avi''
        (add_file id ''/v/a.avi'' (init_window 2))))"
  let ?s = "on_finished ''/v/b.avi'' False (on_finished ''/v/a.avi'' True ?base)"
  let ?mb = "\<lparr>dst = ''/v/b.mp4'', bar = 0, job_worker = None, status = Failed\<rparr>"
  let ?mc = "\<lparr>dst = ''/v/c.mp4'', bar = 0,
             job_worker = Some \<lparr>input_path = ''/v/c.avi'', output_path = ''/v/c.mp4'', cancel = False\<rparr>,
             status = Running\<rparr>"
  have r0: "reachable ?base"
    by (intro r_start_all r_add_file r_init)
  have r1: "reachable (on_finished ''/v/a.avi'' True ?base)"
    apply (rule r_finished[OF r0])
     apply (simp add: win_eval)
    apply (simp add: win_eval)
    done
  have r: "reachable ?s"
    apply (rule r_finished[OF r1])
     apply (simp add: win_eval)
    apply (simp add: win_eval)
    done
  have j: "job_states ?s = [(''/v/a.avi'', Done), (''/v/b.avi'', Failed), (''/v/c.avi'', Running)]"
    by (simp add: win_eval)
  have b: "map_of (items ?s) ''/v/b.avi'' = Some ?mb"
    by (simp add: win_eval)
  have c: "map_of (items ?s) ''/v/c.avi'' = Some ?mc"
    by (simp add: win_eval)
  have k: "map fst (items ?s) = [''/v/a.avi'', ''/v/b.avi'', ''/v/c.avi'']"
    by (simp add: win_eval)
  have tb: "map_of (items (cancel_item ''/v/b.avi'' ?s)) ''/v/b.avi'' = None"
    by (rule cancel_item_removes_idle_jobs[OF r b, THEN conjunct2, THEN conjunct1, THEN mp,
          THEN conjunct1]) simp
  have tc: "map fst (items (cancel_item ''/v/c.avi'' ?s)) = map fst (items ?s)"
    by (rule cancel_item_removes_idle_jobs[OF r c, THEN conjunct1, THEN mp, THEN conjunct1]) simp
  show ?thesis using r j tb tc k by simp
qed

lemma scan_folder_tracks:
  "chk_watch s \<Longrightarrow>
     folder \<in> watched (scan_folder ap tree folder s) \<and>
     (folder \<notin> watched s \<longrightarrow> folder \<in> watcher_dirs (scan_folder ap tree folder s))"
proof -
  assume c: "chk_watch s"
  have w: "watched (enqueue_all ap ps s) = watched s" for ps
    unfolding enqueue_all_def
    by (induction ps arbitrary: s) (simp_all add: add_file_def Let_def)
  show ?thesis using c
    by (simp add: scan_folder_alt Let_def watch_folder_def w)
qed

text \<open>
  C7, amended: disabling directory watch detaches every currently tracked directory from
  the watcher and empties the set of tracked directories; the job registry is left as it
  was. Enabling watch again attaches and tracks nothing by itself: a directory is tracked
  and attached again when it is next scanned while watch is enabled.
\<close>

theorem disabling_watch_detaches_and_forgets:
  "watched (toggle_watch 0 s) = {} \<and>
   watcher_dirs (toggle_watch 0 s) = watcher_dirs s - watched s \<and>
   items (toggle_watch 0 s) = items s \<and>
   chk_watch (toggle_watch 0 s) = False \<and>
   watched (toggle_watch 2 (toggle_watch 0 s)) = {} \<and>
   watcher_dirs (toggle_watch 2 (toggle_watch 0 s)) = watcher_dirs s - watched s \<and>
   folder \<in> watched (scan_folder ap tree folder (toggle_watch 2 (toggle_watch 0 s))) \<and>
   folder \<in> watcher_dirs (scan_folder ap tree folder (toggle_watch 2 (toggle_watch 0 s)))"
proof -
  let ?t = "toggle_watch 2 (toggle_watch 0 s)"
  have c: "chk_watch ?t" by (simp add: toggle_watch_def Let_def)
  have e: "folder \<notin> watched ?t" by (simp add: toggle_watch_def Let_def)
  have a: "folder \<in> watched (scan_folder ap tree folder ?t)"
    using scan_folder_tracks[OF c] by blast
  have b: "folder \<in> watcher_dirs (scan_folder ap tree folder ?t)"
    using scan_folder_tracks[OF c] e by blast
  have d: "watched (toggle_watch 0 s) = {} \<and>
   watcher_dirs (toggle_watch 0 s) = watcher_dirs s - watched s \<and>
   items (toggle_watch 0 s) = items s \<and>
   chk_watch (toggle_watch 0 s) = False \<and>
   watched (toggle_watch 2 (toggle_watch 0 s)) = {} \<and>
   watcher_dirs (toggle_watch 2 (toggle_watch 0 s)) = watcher_dirs s - watched s"
    by (simp add: toggle_watch_def Let_def)
  show ?thesis using a b d by blast
qed

theorem disabling_watch_detaches_and_forgets_witness:
  "watched (toggle_watch 0
      (scan_folder id [(''/videos'', [''a.avi''])] ''/videos'' (toggle_watch 2 (init_window 4)))) = {} \<and>
   watcher_dirs (toggle_watch 0
      (scan_folder id [(''/videos'', [''a.avi''])] ''/videos'' (toggle_watch 2 (init_window 4)))) = {} \<and>
   map fst (items (toggle_watch 0
      (scan_folder id [(''/videos'', [''a.avi''])] ''/videos'' (toggle_watch 2 (init_window 4))))) =
     [''/videos/a.avi'']"
proof -
  let ?s = "scan_folder id [(''/videos'', [''a.avi''])] ''/videos'' (toggle_watch 2 (init_window 4))"
  have v: "watched ?s = {''/videos''} \<and> watcher_dirs ?s = {''/videos''} \<and>
           map fst (items ?s) = [''/videos/a.avi'']"
    by (simp add: win_eval)
  have t: "watched (toggle_watch 0 ?s) = {} \<and>
           watcher_dirs (toggle_watch 0 ?s) = watcher_dirs ?s - watched ?s \<and>
           items (toggle_watch 0 ?s) = items ?s"
    using disabling_watch_detaches_and_forgets[of ?s "''/videos''" id "[]"] by blast
  show ?thesis using v t by simp
qed

end
